theory Spec2Isabelle
  imports Main "HOL-Library.Monad_Syntax" "HOL-Library.Sublist"
begin

section \<open>Bytes, slices and the library functions the searcher calls\<close>

text \<open>
  The searcher (package \<open>search\<close>) works on Go byte slices with \<open>int\<close> indices. A byte is a
  \<open>char\<close>, a slice is a list, an index is an \<open>int\<close> (the code adds the \<open>-1\<close> of a failed
  search to other indices), and a run-time panic (slice bounds out of range, nil pointer
  dereference) is the value \<open>None\<close>.
\<close>

type_synonym byte = char

definition nl :: byte where
  "nl = CHR 0x0A"

text \<open>Go's \<open>b[lo:hi]\<close>: panics unless \<open>0 \<le> lo \<le> hi \<le> len(b)\<close>.\<close>

definition slice :: "'a list \<Rightarrow> int \<Rightarrow> int \<Rightarrow> 'a list option" where
  "slice b lo hi =
     (if 0 \<le> lo \<and> lo \<le> hi \<and> hi \<le> int (length b)
      then Some (take (nat hi - nat lo) (drop (nat lo) b)) else None)"

fun hasPrefix :: "byte list \<Rightarrow> byte list \<Rightarrow> bool" where
  "hasPrefix s [] = True"
| "hasPrefix [] (c # sep) = False"
| "hasPrefix (x # s) (c # sep) = (x = c \<and> hasPrefix s sep)"

text \<open>\<open>bytes.Index(s, sep)\<close>: the first index of \<open>sep\<close> in \<open>s\<close>, or \<open>-1\<close>.\<close>

fun indexFrom :: "int \<Rightarrow> byte list \<Rightarrow> byte list \<Rightarrow> int" where
  "indexFrom i [] sep = (if sep = [] then i else -1)"
| "indexFrom i (x # s) sep = (if hasPrefix (x # s) sep then i else indexFrom (i + 1) s sep)"

definition bytes_Index :: "byte list \<Rightarrow> byte list \<Rightarrow> int" where
  "bytes_Index s sep = indexFrom 0 s sep"

text \<open>\<open>bytes.LastIndex(s, sep)\<close>: the last index of \<open>sep\<close> in \<open>s\<close>, or \<open>-1\<close>.\<close>

fun lastIndexFrom :: "int \<Rightarrow> int \<Rightarrow> byte list \<Rightarrow> byte list \<Rightarrow> int" where
  "lastIndexFrom i found [] sep = (if sep = [] then i else found)"
| "lastIndexFrom i found (x # s) sep =
     lastIndexFrom (i + 1) (if hasPrefix (x # s) sep then i else found) s sep"

definition bytes_LastIndex :: "byte list \<Rightarrow> byte list \<Rightarrow> int" where
  "bytes_LastIndex s sep = lastIndexFrom 0 (-1) s sep"

definition bytes_Contains :: "byte list \<Rightarrow> byte list \<Rightarrow> bool" where
  "bytes_Contains b subslice = (bytes_Index b subslice \<noteq> -1)"

text \<open>\<open>bytes.Count(s, sep)\<close> for the one-byte separator the searcher passes.\<close>

definition bytes_Count1 :: "byte list \<Rightarrow> byte \<Rightarrow> int" where
  "bytes_Count1 s c = int (length (filter (\<lambda>x. x = c) s))"

text \<open>
  \<open>bytes.SplitN(s, sep, n)\<close> for \<open>n > 0\<close> and a one-byte separator: at most \<open>n\<close> pieces, the
  last one the unsplit rest.
\<close>

fun splitUpTo :: "nat \<Rightarrow> byte list \<Rightarrow> byte \<Rightarrow> byte list list" where
  "splitUpTo 0 s c = [s]"
| "splitUpTo (Suc k) s c =
     (if c \<in> set s
      then takeWhile (\<lambda>x. x \<noteq> c) s # splitUpTo k (tl (dropWhile (\<lambda>x. x \<noteq> c) s)) c
      else [s])"

definition bytes_SplitN1 :: "byte list \<Rightarrow> byte \<Rightarrow> nat \<Rightarrow> byte list list" where
  "bytes_SplitN1 s c n = (if n = 0 then [] else splitUpTo (min n (length s + 1) - 1) s c)"

text \<open>
  \<open>utf8.RuneCount(p)\<close>: the number of runes in \<open>p\<close>, an erroneous or short encoding counting
  as one rune of width one byte. \<open>runeWidth\<close> is the number of bytes the rune at the head of
  the slice takes.
\<close>

definition inRange :: "nat \<Rightarrow> nat \<Rightarrow> byte \<Rightarrow> bool" where
  "inRange lo hi c = (lo \<le> of_char c \<and> of_char c \<le> (hi::nat))"

definition contByte :: "byte \<Rightarrow> bool" where
  "contByte c = inRange 0x80 0xBF c"

fun runeWidth :: "byte list \<Rightarrow> nat" where
  "runeWidth [] = 0"
| "runeWidth (c # rest) =
     (let n = (of_char c :: nat) in
      if n < 0x80 then 1
      else if 0xC2 \<le> n \<and> n \<le> 0xDF then
        (case rest of c1 # _ \<Rightarrow> if contByte c1 then 2 else 1 | _ \<Rightarrow> 1)
      else if 0xE0 \<le> n \<and> n \<le> 0xEF then
        (case rest of c1 # c2 # _ \<Rightarrow>
           if (if n = 0xE0 then inRange 0xA0 0xBF c1
               else if n = 0xED then inRange 0x80 0x9F c1 else contByte c1) \<and> contByte c2
           then 3 else 1
         | _ \<Rightarrow> 1)
      else if 0xF0 \<le> n \<and> n \<le> 0xF4 then
        (case rest of c1 # c2 # c3 # _ \<Rightarrow>
           if (if n = 0xF0 then inRange 0x90 0xBF c1
               else if n = 0xF4 then inRange 0x80 0x8F c1 else contByte c1)
              \<and> contByte c2 \<and> contByte c3
           then 4 else 1
         | _ \<Rightarrow> 1)
      else 1)"

function utf8_RuneCount :: "byte list \<Rightarrow> int" where
  "utf8_RuneCount p = (if p = [] then 0 else 1 + utf8_RuneCount (drop (runeWidth p) p))"
  by pat_completeness auto
termination
proof (relation "measure length")
  fix p :: "byte list"
  assume "p \<noteq> []"
  then have "0 < runeWidth p"
    by (cases p) (auto simp: Let_def split: list.splits)
  with \<open>p \<noteq> []\<close> show "(drop (runeWidth p) p, p) \<in> measure length"
    by simp
qed simp

declare utf8_RuneCount.simps [simp del]

text \<open>
  Modelled from the spec: \<open>bytesToLowerASCII(dst, src)\<close>, which \<open>Find\<close> calls and another
  file of the package defines. It is the non-Unicode ASCII lower-case: bytes \<open>'A'..'Z'\<close> are
  offset by 32, every other byte is copied.
\<close>

definition toLowerASCII :: "byte \<Rightarrow> byte" where
  "toLowerASCII c =
     (if (0x41::nat) \<le> of_char c \<and> of_char c \<le> (0x5A::nat)
      then char_of (of_char c + (32::nat)) else c)"

definition bytesToLowerASCII :: "byte list \<Rightarrow> byte list" where
  "bytesToLowerASCII src = map toLowerASCII src"

section \<open>The data model\<close>

definition maxLineSize :: int where "maxLineSize = 500"
definition maxFileMatches :: int where "maxFileMatches = 1000"
definition maxLineMatches :: int where "maxLineMatches = 100"
definition maxOffsets :: int where "maxOffsets = 10"
definition numWorkers :: nat where "numWorkers = 8"

text \<open>
  \<open>*regexp.Regexp\<close> is the standard library's compiled regular expression. The searcher
  calls four of its methods; a compiled expression is the record of what they answer.
\<close>

record regexp =
  LiteralPrefix :: string
  FindIndex :: "byte list \<Rightarrow> (int \<times> int) option"
  FindAllIndex :: "byte list \<Rightarrow> int \<Rightarrow> (int \<times> int) list"
  MatchString :: "string \<Rightarrow> bool"

text \<open>
  Modelled from the spec: \<open>protocol.LineMatch\<close> and \<open>protocol.FileMatch\<close>, declared in
  package \<open>protocol\<close>, with the fields the searcher sets (\<open>FileLimitHit\<close> is the field
  \<open>LimitHit\<close> of a \<open>FileMatch\<close>).
\<close>

record LineMatch =
  Preview :: "byte list"
  LineNumber :: int
  OffsetAndLengths :: "(int \<times> int) list"
  LimitHit :: bool

record FileMatch =
  Path :: string
  LineMatches :: "LineMatch list"
  FileLimitHit :: bool

text \<open>
  Modelled from the spec: \<open>store.SrcFile\<close>, \<open>store.ZipFile\<close> and \<open>DataFor\<close>, declared in
  package \<open>store\<close>. A file is its name and the bytes \<open>DataFor\<close> returns for it; the archive
  is its file list and \<open>MaxLen\<close>, the sizing hint for the case-fold buffer.
\<close>

record SrcFile =
  Name :: string
  Data :: "byte list"

record ZipFile =
  Files :: "SrcFile list"
  MaxLen :: nat

definition DataFor :: "ZipFile \<Rightarrow> SrcFile \<Rightarrow> byte list" where
  "DataFor zf f = Data f"

text \<open>
  \<open>readerGrep\<close>. \<open>re = None\<close> is the nil regexp. Of the \<open>pathmatch.PathMatcher\<close> the
  searcher uses \<open>MatchPath\<close>, so \<open>matchPath\<close> is that predicate on paths. Of
  \<open>transformBuf\<close> only the allocation matters (it is overwritten before each use):
  \<open>None\<close> is nil, \<open>Some n\<close> a buffer of length \<open>n\<close>.
\<close>

record readerGrep =
  re :: "regexp option"
  ignoreCase :: bool
  transformBuf :: "nat option"
  matchPath :: "string \<Rightarrow> bool"
  literalSubstring :: "byte list"

section \<open>The file scanner\<close>

text \<open>
  \<open>hydrateLineNumbers\<close>: the line number is the previous one plus the newlines between the
  previous match index and the start of the match; the new match index is \<open>lineStart\<close>.
\<close>

definition hydrateLineNumbers ::
  "byte list \<Rightarrow> int \<Rightarrow> int \<Rightarrow> int \<Rightarrow> (int \<times> int) \<Rightarrow> (int \<times> int) option" where
  "hydrateLineNumbers fileBuf lastLineNumber lastMatchIndex lineStart match =
     do {
       s \<leftarrow> slice fileBuf lastMatchIndex (fst match);
       Some (lastLineNumber + bytes_Count1 s nl, lineStart)
     }"

text \<open>
  The inner loop of \<open>Find\<close> over \<open>matchLines\<close>, taken when the span of a match holds more
  than one line. \<open>i\<close> is the loop index, \<open>nlines\<close> is \<open>len(matchLines)\<close>, \<open>lineNum\<close> the
  running line number; every piece gets the whole span as its preview.
\<close>

fun emitLines ::
  "byte list \<Rightarrow> bool \<Rightarrow> int \<Rightarrow> int \<Rightarrow> int \<Rightarrow> int \<Rightarrow> int \<Rightarrow> int \<Rightarrow> int \<Rightarrow>
   int \<Rightarrow> int \<Rightarrow> byte list list \<Rightarrow> LineMatch list \<Rightarrow> LineMatch list option" where
  "emitLines fileMatchBuf lineLimitHit mstart mend lineStart lineEnd offset mlen nlines
     i lineNum [] matches = Some matches"
| "emitLines fileMatchBuf lineLimitHit mstart mend lineStart lineEnd offset mlen nlines
     i lineNum (line # rest) matches =
     do {
       let offsetStart = (if i = 0 then offset else 0);
       le \<leftarrow> (if i = 0 then
               do {
                 let n = lineStart + int (length line) + 1;
                 s \<leftarrow> slice fileMatchBuf 0 n;
                 let endOfCurrentLine = bytes_LastIndex s [nl];
                 Some (endOfCurrentLine - mstart)
               }
             else if i = nlines - 1 then
               do {
                 s \<leftarrow> slice fileMatchBuf 0 mend;
                 let startOfCurrentLine = bytes_LastIndex s [nl] + 1;
                 Some (mend - startOfCurrentLine)
               }
             else Some (int (length line)));
       preview \<leftarrow> slice fileMatchBuf lineStart lineEnd;
       emitLines fileMatchBuf lineLimitHit mstart mend lineStart lineEnd offset mlen nlines
         (i + 1) (lineNum + 1) rest
         (matches @ [\<lparr>Preview = preview, LineNumber = lineNum,
                       OffsetAndLengths = [(offsetStart, le)], LimitHit = lineLimitHit\<rparr>])
     }"

text \<open>
  The loop state of \<open>Find\<close>: the matches emitted so far, \<open>lastLineNumber\<close>,
  \<open>lastMatchIndex\<close> and \<open>lastLineStartIndex\<close>.
\<close>

record findState =
  matches :: "LineMatch list"
  lastLineNumber :: int
  lastMatchIndex :: int
  lastLineStartIndex :: int

text \<open>One iteration of \<open>for _, match := range locs\<close>.\<close>

definition findStep ::
  "byte list \<Rightarrow> bool \<Rightarrow> findState \<Rightarrow> (int \<times> int) \<Rightarrow> findState option" where
  "findStep fileMatchBuf lineLimitHit st match =
     do {
       let mstart = fst match;
       let mend = snd match;
       let blen = int (length fileMatchBuf);
       s1 \<leftarrow> slice fileMatchBuf (lastLineStartIndex st) mstart;
       let lineStart0 = lastLineStartIndex st + bytes_LastIndex s1 [nl];
       let llsi = (if lineStart0 > 0 then lineStart0 + 1 else lastLineStartIndex st);
       let lineStart1 = (if lineStart0 < blen - 1 \<and> blen > 0 then lineStart0 + 1 else lineStart0);
       s2 \<leftarrow> slice fileMatchBuf mend blen;
       let lineEnd0 = mend + bytes_Index s2 [nl];
       let lineStart = (if lineStart1 < 0 then mstart else lineStart1);
       let lineEnd = (if lineEnd0 < 0 then mend else lineEnd0);
       s3 \<leftarrow> slice fileMatchBuf llsi mstart;
       let offset = utf8_RuneCount s3;
       s4 \<leftarrow> slice fileMatchBuf mstart mend;
       let mlen = utf8_RuneCount s4;
       (lineNumber, matchIndex) \<leftarrow>
         hydrateLineNumbers fileMatchBuf (lastLineNumber st) (lastMatchIndex st) lineStart match;
       matchBuf \<leftarrow> slice fileMatchBuf lineStart lineEnd;
       let matchLines = bytes_SplitN1 matchBuf nl (nat (maxLineMatches + 1));
       if length matchLines > 1 then
         do {
           ms \<leftarrow> emitLines fileMatchBuf lineLimitHit mstart mend lineStart lineEnd offset mlen
                  (int (length matchLines)) 0 lineNumber matchLines (matches st);
           Some \<lparr>matches = ms, lastLineNumber = lineNumber, lastMatchIndex = matchIndex,
                  lastLineStartIndex = lineStart\<rparr>
         }
       else
         do {
           preview \<leftarrow> slice fileMatchBuf lineStart lineEnd;
           Some \<lparr>matches = matches st @
                    [\<lparr>Preview = preview, LineNumber = lineNumber,
                      OffsetAndLengths = [(offset, mlen)], LimitHit = lineLimitHit\<rparr>],
                  lastLineNumber = lineNumber, lastMatchIndex = matchIndex,
                  lastLineStartIndex = llsi\<rparr>
         }
     }"

fun findLoop ::
  "byte list \<Rightarrow> bool \<Rightarrow> findState \<Rightarrow> (int \<times> int) list \<Rightarrow> findState option" where
  "findLoop fileMatchBuf lineLimitHit st [] = Some st"
| "findLoop fileMatchBuf lineLimitHit st (match # locs) =
     do {
       st' \<leftarrow> findStep fileMatchBuf lineLimitHit st match;
       findLoop fileMatchBuf lineLimitHit st' locs
     }"

text \<open>The errors a Go \<open>error\<close> value of this package can be.\<close>

datatype error = EOF | ReaderTooLarge | Canceled | DeadlineExceeded | OtherError string

text \<open>
  \<open>Find\<close>. The result is \<open>None\<close> when the call panics; otherwise the matcher with its
  (possibly newly allocated) \<open>transformBuf\<close> and the triple \<open>(matches, limitHit, err)\<close>.
  \<open>rg.transformBuf[:len(fileBuf)]\<close> panics when the file is longer than the buffer, and
  \<open>rg.re.FindIndex\<close> dereferences \<open>rg.re\<close>.
\<close>

definition Find ::
  "readerGrep \<Rightarrow> ZipFile \<Rightarrow> SrcFile \<Rightarrow>
   (readerGrep \<times> LineMatch list \<times> bool \<times> error option) option" where
  "Find rg0 zf f =
     do {
       let rg = (if ignoreCase rg0 \<and> transformBuf rg0 = None
                 then rg0\<lparr>transformBuf := Some (MaxLen zf)\<rparr> else rg0);
       let fileBuf = DataFor zf f;
       fileMatchBuf \<leftarrow>
         (if ignoreCase rg then
            (case transformBuf rg of
               None \<Rightarrow> None
             | Some cap \<Rightarrow> if length fileBuf \<le> cap then Some (bytesToLowerASCII fileBuf) else None)
          else Some fileBuf);
       if \<not> bytes_Contains fileMatchBuf (literalSubstring rg) then Some (rg, [], False, None)
       else
         do {
           r \<leftarrow> re rg;
           if FindIndex r fileMatchBuf = None then Some (rg, [], False, None)
           else
             do {
               let locs = FindAllIndex r fileMatchBuf maxFileMatches;
               let st0 = \<lparr>matches = [], lastLineNumber = 0, lastMatchIndex = 0,
                           lastLineStartIndex = 0\<rparr>;
               st \<leftarrow> (if length locs > 0
                      then findLoop fileMatchBuf (int (length locs) = maxOffsets) st0 locs
                      else Some st0);
               Some (rg, matches st, int (length (matches st)) = maxLineMatches, None)
             }
         }
     }"

text \<open>\<open>FindZip\<close>: \<open>Find\<close> packed into a \<open>FileMatch\<close>.\<close>

definition FindZip ::
  "readerGrep \<Rightarrow> ZipFile \<Rightarrow> SrcFile \<Rightarrow> (readerGrep \<times> FileMatch \<times> error option) option" where
  "FindZip rg zf f =
     do {
       (rg', lm, limitHit, err) \<leftarrow> Find rg zf f;
       Some (rg', \<lparr>Path = Name f, LineMatches = lm, FileLimitHit = limitHit\<rparr>, err)
     }"

section \<open>A concrete regular expression: one literal\<close>

text \<open>
  What the compiled expression of a quoted literal \<open>lit\<close> (non-empty) answers: the leftmost,
  non-overlapping occurrences of \<open>lit\<close>, at most \<open>n\<close> of them. \<open>skip\<close> is the number of
  bytes still covered by the last occurrence.
\<close>

fun litLocs :: "int \<Rightarrow> nat \<Rightarrow> byte list \<Rightarrow> byte list \<Rightarrow> (int \<times> int) list" where
  "litLocs i skip [] lit = []"
| "litLocs i skip (x # s) lit =
     (if skip > 0 then litLocs (i + 1) (skip - 1) s lit
      else if lit \<noteq> [] \<and> hasPrefix (x # s) lit
      then (i, i + int (length lit)) # litLocs (i + 1) (length lit - 1) s lit
      else litLocs (i + 1) 0 s lit)"

definition literalRegexp :: "byte list \<Rightarrow> regexp" where
  "literalRegexp lit =
     \<lparr>LiteralPrefix = lit,
      FindIndex = (\<lambda>b. case litLocs 0 0 b lit of [] \<Rightarrow> None | loc # _ \<Rightarrow> Some loc),
      FindAllIndex = (\<lambda>b n. take (nat n) (litLocs 0 0 b lit)),
      MatchString = (\<lambda>s. litLocs 0 0 s lit \<noteq> [])\<rparr>"

definition literalGrep :: "byte list \<Rightarrow> bool \<Rightarrow> readerGrep" where
  "literalGrep lit ic =
     \<lparr>re = Some (literalRegexp lit), ignoreCase = ic, transformBuf = None,
      matchPath = (\<lambda>_. True), literalSubstring = []\<rparr>"

text \<open>What \<open>Find\<close> returns to its caller: \<open>(matches, limitHit, err)\<close>.\<close>

definition Find_result ::
  "readerGrep \<Rightarrow> ZipFile \<Rightarrow> SrcFile \<Rightarrow> (LineMatch list \<times> bool \<times> error option) option" where
  "Find_result rg zf f = map_option snd (Find rg zf f)"

section \<open>Auxiliary notions for the proofs\<close>

text \<open>
  Names for the expressions of \<open>Find\<close>'s loop body: the adjustments of \<open>lineStart\<close> and
  \<open>lineEnd\<close>, the update of \<open>lastLineStartIndex\<close>, and a slice whose bounds are known to be in
  range.
\<close>

definition nextL :: "int \<Rightarrow> int \<Rightarrow> int" where
  "nextL L ls0 = (if ls0 > 0 then ls0 + 1 else L)"

definition adjStart :: "int \<Rightarrow> int \<Rightarrow> int" where
  "adjStart blen ls0 = (if ls0 < blen - 1 \<and> blen > 0 then ls0 + 1 else ls0)"

definition clampNeg :: "int \<Rightarrow> int \<Rightarrow> int" where
  "clampNeg d x = (if x < 0 then d else x)"

definition sl :: "'a list \<Rightarrow> int \<Rightarrow> int \<Rightarrow> 'a list" where
  "sl b lo hi = take (nat hi - nat lo) (drop (nat lo) b)"

definition lineStartOf :: "byte list \<Rightarrow> int \<Rightarrow> int \<Rightarrow> int" where
  "lineStartOf buf L s =
     clampNeg s (adjStart (int (length buf)) (L + bytes_LastIndex (sl buf L s) [nl]))"

definition lineEndOf :: "byte list \<Rightarrow> int \<Rightarrow> int" where
  "lineEndOf buf e = clampNeg e (e + bytes_Index (sl buf e (int (length buf))) [nl])"

definition nextLOf :: "byte list \<Rightarrow> int \<Rightarrow> int \<Rightarrow> int" where
  "nextLOf buf L s = nextL L (L + bytes_LastIndex (sl buf L s) [nl])"

text \<open>The buffer \<open>Find\<close> matches on, and the state its loop starts in.\<close>

definition matchBufOf :: "readerGrep \<Rightarrow> ZipFile \<Rightarrow> SrcFile \<Rightarrow> byte list" where
  "matchBufOf rg zf f =
     (if ignoreCase rg then bytesToLowerASCII (DataFor zf f) else DataFor zf f)"

definition st0 :: findState where
  "st0 = \<lparr>matches = [], lastLineNumber = 0, lastMatchIndex = 0, lastLineStartIndex = 0\<rparr>"

text \<open>The number of newline bytes before index \<open>s\<close>: the 0-based number of the line of \<open>s\<close>.\<close>

definition linesBefore :: "byte list \<Rightarrow> int \<Rightarrow> int" where
  "linesBefore buf s = bytes_Count1 (take (nat s) buf) nl"

section \<open>Example inputs\<close>

text \<open>The files of the end-to-end scenarios, each in an archive of its own.\<close>

definition file_simple :: SrcFile where
  "file_simple = \<lparr>Name = ''a.txt'', Data = ''foo bar'' @ [nl] @ ''baz foo'' @ [nl]\<rparr>"

definition file_case :: SrcFile where
  "file_case = \<lparr>Name = ''a.txt'', Data = ''foo'' @ [nl] @ ''FOO'' @ [nl]\<rparr>"

definition file_no_newline :: SrcFile where
  "file_no_newline = \<lparr>Name = ''a.txt'', Data = ''foo bar''\<rparr>"

definition archiveOf :: "SrcFile list \<Rightarrow> ZipFile" where
  "archiveOf fs = \<lparr>Files = fs, MaxLen = foldr max (map (\<lambda>f. length (Data f)) fs) 0\<rparr>"

section \<open>The parsed regular expression and the literal extractor\<close>

text \<open>
  \<open>syntax.Regexp\<close> of the standard library, with the fields the searcher reads or writes:
  the operator, the \<open>FoldCase\<close> bit of the flags, the subexpressions, the runes of a literal or the bounds of a
  character class (pairs \<open>lo, hi\<close> flattened into one list), the two-rune storage \<open>Rune0\<close>,
  and the bounds of a repetition. A rune is an \<open>int\<close>.
\<close>

datatype Op =
  OpNoMatch | OpEmptyMatch | OpLiteral | OpCharClass | OpAnyCharNotNL | OpAnyChar
  | OpBeginLine | OpEndLine | OpBeginText | OpEndText | OpWordBoundary | OpNoWordBoundary
  | OpCapture | OpStar | OpPlus | OpQuest | OpRepeat | OpConcat | OpAlternate

type_synonym rune = int

datatype Regexp =
  Regexp (Op: Op) (FoldCase: bool) (Sub: "Regexp list") (Rune: "rune list")
    (Rune0: "rune list") (Min_rep: int) (Max_rep: int)

text \<open>
  \<open>string(re.Rune)\<close>: the UTF-8 encoding of the runes, a rune outside the Unicode range or a
  surrogate half encoded as \<open>U+FFFD\<close>.
\<close>

definition byteOf :: "int \<Rightarrow> byte" where
  "byteOf n = char_of (nat n)"

definition encodeRune :: "rune \<Rightarrow> byte list" where
  "encodeRune r =
     (if 0 \<le> r \<and> r < 0x80 then [byteOf r]
      else if 0 \<le> r \<and> r < 0x800 then [byteOf (0xC0 + r div 64), byteOf (0x80 + r mod 64)]
      else if r < 0 \<or> 0x10FFFF < r \<or> (0xD800 \<le> r \<and> r \<le> 0xDFFF)
      then [byteOf 0xEF, byteOf 0xBF, byteOf 0xBD]
      else if r < 0x10000
      then [byteOf (0xE0 + r div 4096), byteOf (0x80 + r div 64 mod 64), byteOf (0x80 + r mod 64)]
      else [byteOf (0xF0 + r div 262144), byteOf (0x80 + r div 4096 mod 64),
            byteOf (0x80 + r div 64 mod 64), byteOf (0x80 + r mod 64)])"

definition runesToString :: "rune list \<Rightarrow> byte list" where
  "runesToString rs = concat (map encodeRune rs)"

text \<open>
  \<open>longestLiteral\<close>. \<open>re.Sub[0]\<close> panics (\<open>None\<close>) when \<open>re.Sub\<close> is empty.
  \<open>keepLonger\<close> is one round of the loop of the \<open>OpConcat\<close> case: \<open>l\<close> replaces
  \<open>longest\<close> when it is strictly longer.
\<close>

definition keepLonger :: "byte list option \<Rightarrow> byte list option \<Rightarrow> byte list option" where
  "keepLonger longest l =
     do { lg \<leftarrow> longest; x \<leftarrow> l; Some (if length x > length lg then x else lg) }"

fun longestLiteral :: "Regexp \<Rightarrow> byte list option" where
  "longestLiteral (Regexp op fc sub rn rn0 mn mx) =
     (case op of
        OpLiteral \<Rightarrow> Some (runesToString rn)
      | OpCapture \<Rightarrow> (case sub of [] \<Rightarrow> None | s # _ \<Rightarrow> longestLiteral s)
      | OpPlus \<Rightarrow> (case sub of [] \<Rightarrow> None | s # _ \<Rightarrow> longestLiteral s)
      | OpRepeat \<Rightarrow>
          (if mn \<ge> 1 then (case sub of [] \<Rightarrow> None | s # _ \<Rightarrow> longestLiteral s) else Some [])
      | OpConcat \<Rightarrow> foldl (\<lambda>longest s. keepLonger longest (longestLiteral s)) (Some []) sub
      | _ \<Rightarrow> Some [])"

text \<open>Constructors for example expressions: a literal, and an operator over subexpressions.\<close>

definition litNode :: "string \<Rightarrow> Regexp" where
  "litNode s = Regexp OpLiteral False [] (map of_char s) (take 2 (map of_char s)) 0 0"

definition opNode :: "Op \<Rightarrow> Regexp list \<Rightarrow> Regexp" where
  "opNode op sub = Regexp op False sub [] [] 0 0"

definition repeatNode :: "int \<Rightarrow> int \<Rightarrow> Regexp \<Rightarrow> Regexp" where
  "repeatNode mn mx s = Regexp OpRepeat False [s] [] [] mn mx"

section \<open>Reading a stream into a fixed buffer\<close>

text \<open>
  An \<open>io.Reader\<close> is a state and its \<open>Read\<close> method: called with a buffer of length \<open>k\<close> it
  returns the number of bytes it stored and an error (\<open>io.EOF\<close> at the end of the stream),
  and moves to a new state. The loop of \<open>readAll\<close> need not end (a reader may answer
  \<open>0, nil\<close> for ever), so it runs on fuel; \<open>b = b[m:]\<close> panics when the reader claims more
  bytes than the buffer has.
\<close>

type_synonym 's reader = "'s \<Rightarrow> nat \<Rightarrow> (nat \<times> error option) \<times> 's"

datatype 'a run = OutOfFuel | Panic | Return 'a

fun readAll :: "nat \<Rightarrow> 's reader \<Rightarrow> 's \<Rightarrow> nat \<Rightarrow> nat \<Rightarrow> (nat \<times> error option) run" where
  "readAll 0 rd r lenb n = OutOfFuel"
| "readAll (Suc fuel) rd r lenb n =
     (if lenb = 0 then
        (case rd r 1 of ((_, err), _) \<Rightarrow>
           if err = Some EOF then Return (n, None) else Return (n, Some ReaderTooLarge))
      else
        (case rd r lenb of ((m, err), r') \<Rightarrow>
           if m > lenb then Panic
           else (case err of
                   Some e \<Rightarrow> if e = EOF then Return (n + m, None) else Return (n + m, Some e)
                 | None \<Rightarrow> readAll fuel rd r' (lenb - m) (n + m))))"

text \<open>
  A reader over a stream of which \<open>r\<close> bytes remain. It stores at most \<open>chunk\<close> bytes per
  call. At the end of the stream it answers \<open>0, io.EOF\<close>; an \<open>eager\<close> reader moreover
  returns \<open>io.EOF\<close> together with the last bytes, as the contract of \<open>io.Reader\<close> allows.
\<close>

definition streamReader :: "nat \<Rightarrow> bool \<Rightarrow> nat reader" where
  "streamReader chunk eager r k =
     (if r = 0 then ((0, Some EOF), 0)
      else let m = min (min k chunk) r
           in ((m, if eager \<and> m = r then Some EOF else None), r - m))"

section \<open>The case folder\<close>

text \<open>
  \<open>unicode.ToLower\<close>: ASCII is handled in the function itself; for the other runes the
  library consults its case tables, which are a parameter \<open>tbl\<close> here.
\<close>

definition MaxRune :: rune where
  "MaxRune = 0x10FFFF"

definition unicode_ToLower :: "(rune \<Rightarrow> rune) \<Rightarrow> rune \<Rightarrow> rune" where
  "unicode_ToLower tbl r =
     (if r \<le> 0x7F then (if 0x41 \<le> r \<and> r \<le> 0x5A then r + (0x61 - 0x41) else r) else tbl r)"

text \<open>
  The exclusion branch, first loop (\<open>i = 1; i < l-1; i += 2\<close>): the argument is
  \<open>re.Rune[1:]\<close>, read pair by pair; every gap \<open>(a, b)\<close> between two ranges that meets
  \<open>['A', 'Z']\<close> is clamped and appended, moved to lower case, to \<open>excluded\<close>.
\<close>

fun excludedGaps :: "rune list \<Rightarrow> rune list" where
  "excludedGaps (a # b # rest) =
     (if a > 0x5A \<or> b < 0x41 then excludedGaps rest
      else (let a' = (if a < 0x41 then 0x41 - 1 else a);
                b' = (if b > 0x5A then 0x5A + 1 else b)
            in [a' + (0x61 - 0x41), b' + (0x62 - 0x42)] @ excludedGaps rest))"
| "excludedGaps rest = []"

text \<open>\<open>for len(excluded) > 0 && a >= excluded[1] { excluded = excluded[2:] }\<close>\<close>

fun dropExcluded :: "rune \<Rightarrow> rune list \<Rightarrow> rune list" where
  "dropExcluded a (x0 # x1 # excluded) =
     (if a \<ge> x1 then dropExcluded a excluded else x0 # x1 # excluded)"
| "dropExcluded a excluded = excluded"

text \<open>
  The exclusion branch, second loop (\<open>i = 0; i < l; i += 2\<close>) over \<open>re.Rune\<close>, building
  \<open>copy\<close>. Reading \<open>re.Rune[i+1]\<close> past the end, or \<open>excluded[1]\<close> of a one-element list,
  panics.
\<close>

fun copyRanges :: "rune list \<Rightarrow> rune list \<Rightarrow> rune list \<Rightarrow> rune list option" where
  "copyRanges [] excluded copy = Some copy"
| "copyRanges [a] excluded copy = None"
| "copyRanges (a # b # rest) excluded copy =
     (case dropExcluded a excluded of
        [] \<Rightarrow> copyRanges rest [] (copy @ [a, b])
      | [x0] \<Rightarrow> None
      | x0 # x1 # ex \<Rightarrow>
          if b \<le> x0 then copyRanges rest (x0 # x1 # ex) (copy @ [a, b])
          else copyRanges rest (x0 # x1 # ex)
                 (copy @ (if a \<le> x0 then [a, x0] else []) @ (if b \<ge> x1 then [x1, b] else [])))"

text \<open>
  The other branch, first loop: is there a range that includes \<open>a-z\<close>? \<open>None\<close> is the
  panic of reading \<open>re.Rune[i+1]\<close> past the end.
\<close>

fun includesLower :: "rune list \<Rightarrow> bool option" where
  "includesLower [] = Some False"
| "includesLower [a] = None"
| "includesLower (a # b # rest) = (if a \<le> 0x61 \<and> b \<ge> 0x7A then Some True else includesLower rest)"

text \<open>
  The other branch, second loop, over the ranges of \<open>re.Rune\<close>: the result is the ranges as
  modified in place, and the ranges appended behind them.
\<close>

fun lowerRanges :: "rune list \<Rightarrow> (rune list \<times> rune list) option" where
  "lowerRanges [] = Some ([], [])"
| "lowerRanges [a] = None"
| "lowerRanges (a # b # rest) =
     do {
       (inplace, appended) \<leftarrow> lowerRanges rest;
       if a > 0x5A \<or> b < 0x41 then Some (a # b # inplace, appended)
       else
         (let simple = \<not> (a < 0x41) \<and> \<not> (b > 0x5A);
              a' = (if a < 0x41 then 0x41 else a) + (0x61 - 0x41);
              b' = (if b > 0x5A then 0x5A else b) + (0x61 - 0x41)
          in if simple then Some (a' # b' # inplace, appended)
             else Some (a # b # inplace, a' # b' # appended))
     }"

text \<open>\<open>for i := 0; i < 2 && i < len(re.Rune); i++ { re.Rune0[i] = re.Rune[i] }\<close>\<close>

definition copyRune0 :: "rune list \<Rightarrow> rune list \<Rightarrow> rune list" where
  "copyRune0 rn rn0 = take 2 rn @ drop (length (take 2 rn)) rn0"

text \<open>
  \<open>lowerRegexpASCII\<close>, returning the expression it leaves behind; \<open>None\<close> is a panic. The
  subexpressions are lowered first. A class that already includes \<open>a-z\<close> returns before the
  copy to \<open>Rune0\<close>.
\<close>

fun lowerAll :: "(Regexp \<Rightarrow> Regexp option) \<Rightarrow> Regexp list \<Rightarrow> Regexp list option" where
  "lowerAll f [] = Some []"
| "lowerAll f (c # cs) = do { c' \<leftarrow> f c; cs' \<leftarrow> lowerAll f cs; Some (c' # cs') }"

lemma lowerAll_cong [fundef_cong]:
  "cs = cs' \<Longrightarrow> (\<And>c. c \<in> set cs' \<Longrightarrow> f c = g c) \<Longrightarrow> lowerAll f cs = lowerAll g cs'"
  by (induction cs arbitrary: cs') auto

fun lowerRegexpASCII :: "(rune \<Rightarrow> rune) \<Rightarrow> Regexp \<Rightarrow> Regexp option" where
  "lowerRegexpASCII tbl (Regexp op fc sub rn rn0 mn mx) =
     do {
       sub' \<leftarrow> lowerAll (lowerRegexpASCII tbl) sub;
       (case op of
          OpLiteral \<Rightarrow>
            (let rn' = map (unicode_ToLower tbl) rn
             in Some (Regexp op fc sub' rn' (copyRune0 rn' rn0) mn mx))
        | OpCharClass \<Rightarrow>
            (let l = length rn in
             if l \<ge> 4 \<and> hd rn = 0 \<and> last rn = MaxRune then
               do {
                 rn' \<leftarrow> copyRanges rn (excludedGaps (tl rn)) [];
                 Some (Regexp op fc sub' rn' (copyRune0 rn' rn0) mn mx)
               }
             else
               do {
                 found \<leftarrow> includesLower rn;
                 if found then Some (Regexp op fc sub' rn rn0 mn mx)
                 else
                   do {
                     (inplace, appended) \<leftarrow> lowerRanges rn;
                     Some (Regexp op fc sub' (inplace @ appended)
                             (copyRune0 (inplace @ appended) rn0) mn mx)
                   }
               })
        | _ \<Rightarrow> Some (Regexp op fc sub' rn rn0 mn mx))
     }"

section \<open>Building the matcher\<close>

text \<open>
  Modelled from the spec: \<open>protocol.PatternInfo\<close>, declared in package \<open>protocol\<close>;
  \<open>AllIncludePatterns\<close> is what the method of that name returns.
\<close>

record PatternInfo =
  Pattern :: string
  IsRegExp :: bool
  IsWordMatch :: bool
  IsCaseSensitive :: bool
  AllIncludePatterns :: "string list"
  ExcludePattern :: string
  PathPatternsAreRegExps :: bool
  PathPatternsAreCaseSensitive :: bool
  PatternMatchesContent :: bool
  PatternMatchesPaths :: bool
  FileMatchLimit :: int

text \<open>
  The functions of \<open>regexp\<close>, \<open>regexp/syntax\<close>, \<open>unicode\<close>, \<open>strings\<close> and \<open>pathmatch\<close>
  that \<open>compile\<close> and \<open>matchString\<close> call, as parameters. \<open>Inl\<close> is the error a function
  returns.
\<close>

record library =
  QuoteMeta :: "string \<Rightarrow> string"
  Parse :: "string \<Rightarrow> error + Regexp"
  String_of :: "Regexp \<Rightarrow> string"
  Compile :: "string \<Rightarrow> error + regexp"
  Simplify :: "Regexp \<Rightarrow> Regexp"
  CompilePathPatterns :: "string list \<Rightarrow> string \<Rightarrow> bool \<Rightarrow> bool \<Rightarrow> error + (string \<Rightarrow> bool)"
  ToLowerTable :: "rune \<Rightarrow> rune"
  strings_ToLower :: "string \<Rightarrow> string"

text \<open>The expression \<open>compile\<close> builds from the pattern before any case folding.\<close>

definition buildExpr :: "library \<Rightarrow> PatternInfo \<Rightarrow> string" where
  "buildExpr lib p =
     (let expr = Pattern p;
          expr = (if \<not> IsRegExp p then QuoteMeta lib expr else expr);
          expr = (if IsWordMatch p then [CHR 0x5C, CHR ''b''] @ expr @ [CHR 0x5C, CHR ''b'']
                  else expr);
          expr = (if IsRegExp p then ''(?m:'' @ expr @ '')'' else expr)
      in expr)"

text \<open>
  The branch \<open>p.Pattern != ""\<close>: the result is the compiled expression and the literal
  pre-filter, \<open>Inl\<close> an error returned, \<open>None\<close> a panic.
\<close>

definition compilePattern ::
  "library \<Rightarrow> PatternInfo \<Rightarrow> (error + (regexp \<times> byte list)) option" where
  "compilePattern lib p =
     do {
       lowered \<leftarrow>
         (if \<not> IsCaseSensitive p then
            (case Parse lib (buildExpr lib p) of
               Inl err \<Rightarrow> Some (Inl err)
             | Inr ast \<Rightarrow> do { ast' \<leftarrow> lowerRegexpASCII (ToLowerTable lib) ast;
                               Some (Inr (String_of lib ast')) })
          else Some (Inr (buildExpr lib p)));
       (case lowered of
          Inl err \<Rightarrow> Some (Inl err)
        | Inr expr \<Rightarrow>
            (case Compile lib expr of
               Inl err \<Rightarrow> Some (Inl err)
             | Inr r \<Rightarrow>
                 if LiteralPrefix r = [] then
                   (case Parse lib expr of
                      Inl err \<Rightarrow> Some (Inl err)
                    | Inr ast \<Rightarrow> do { l \<leftarrow> longestLiteral (Simplify lib ast);
                                      Some (Inr (r, l)) })
                 else Some (Inr (r, []))))
     }"

definition compile :: "library \<Rightarrow> PatternInfo \<Rightarrow> (error + readerGrep) option" where
  "compile lib p =
     do {
       pat \<leftarrow> (if Pattern p \<noteq> [] then
                 do { c \<leftarrow> compilePattern lib p;
                      Some (case c of Inl err \<Rightarrow> Inl err | Inr (r, l) \<Rightarrow> Inr (Some r, l)) }
               else Some (Inr (None, [])));
       (case pat of
          Inl err \<Rightarrow> Some (Inl err)
        | Inr (r, l) \<Rightarrow>
            (case CompilePathPatterns lib (AllIncludePatterns p) (ExcludePattern p)
                    (PathPatternsAreRegExps p) (PathPatternsAreCaseSensitive p) of
               Inl err \<Rightarrow> Some (Inl err)
             | Inr mp \<Rightarrow>
                 Some (Inr \<lparr>re = r, ignoreCase = \<not> IsCaseSensitive p, transformBuf = None,
                            matchPath = mp, literalSubstring = l\<rparr>)))
     }"

text \<open>\<open>Copy\<close>: the copy a worker gets has no \<open>transformBuf\<close>.\<close>

definition Copy :: "readerGrep \<Rightarrow> readerGrep" where
  "Copy rg = \<lparr>re = re rg, ignoreCase = ignoreCase rg, transformBuf = None,
              matchPath = matchPath rg, literalSubstring = literalSubstring rg\<rparr>"

text \<open>\<open>matchString\<close>: a nil regexp matches every string.\<close>

definition matchString :: "library \<Rightarrow> readerGrep \<Rightarrow> string \<Rightarrow> bool" where
  "matchString lib rg s =
     (case re rg of
        None \<Rightarrow> True
      | Some r \<Rightarrow> MatchString r (if ignoreCase rg then strings_ToLower lib s else s))"

section \<open>The concurrent driver\<close>

text \<open>The clamp of \<open>fileMatchLimit\<close> at the head of \<open>concurrentFind\<close>.\<close>

definition clampLimit :: "int \<Rightarrow> int" where
  "clampLimit fileMatchLimit =
     (if fileMatchLimit > maxFileMatches \<or> fileMatchLimit \<le> 0 then maxFileMatches
      else fileMatchLimit)"

text \<open>
  The fast path: the loop over the files with its \<open>break\<close>; the result is \<open>matches\<close> and
  \<open>limitHit\<close>.
\<close>

fun pathLoop ::
  "library \<Rightarrow> readerGrep \<Rightarrow> int \<Rightarrow> SrcFile list \<Rightarrow> FileMatch list \<Rightarrow> FileMatch list \<times> bool" where
  "pathLoop lib rg fileMatchLimit [] ms = (ms, False)"
| "pathLoop lib rg fileMatchLimit (f # fs) ms =
     (if matchPath rg (Name f) \<and> matchString lib rg (Name f) then
        (if int (length ms) < fileMatchLimit
         then pathLoop lib rg fileMatchLimit fs
                (ms @ [\<lparr>Path = Name f, LineMatches = [], FileLimitHit = False\<rparr>])
         else (ms, True))
      else pathLoop lib rg fileMatchLimit fs ms)"

text \<open>
  The general path. A worker is at the top of its loop (before the \<open>select\<close> on \<open>done\<close>),
  about to take \<open>filesmu\<close>, holding a file, holding a file match to publish under
  \<open>matchesmu\<close>, or has returned. The shared state is the file queue, the result list,
  \<open>limitHit\<close>, the error of the derived context (nil while it is live), the latched
  \<open>wgErr\<close>, the two counters (\<open>uint32\<close>), the workers, and whether a worker has panicked.
\<close>

datatype worker =
  LoopTop readerGrep | Locking readerGrep | HasFile readerGrep SrcFile
  | HasMatch readerGrep FileMatch | Exited

record driver =
  files :: "SrcFile list"
  fileMatches :: "FileMatch list"
  limitHit :: bool
  ctxErr :: "error option"
  wgErr :: "error option"
  filesSkipped :: int
  filesSearched :: int
  workers :: "worker list"
  crashed :: bool

text \<open>\<open>cancel()\<close>: the first cause of the context's end stays.\<close>

definition cancel :: "driver \<Rightarrow> driver" where
  "cancel d = (if ctxErr d = None then d\<lparr>ctxErr := Some Canceled\<rparr> else d)"

text \<open>
  One step of worker \<open>i\<close>. Between two accesses to shared state a worker acts on its own
  data only, so each step runs up to the next such access.
\<close>

definition workerStep ::
  "library \<Rightarrow> ZipFile \<Rightarrow> int \<Rightarrow> bool \<Rightarrow> nat \<Rightarrow> driver \<Rightarrow> driver" where
  "workerStep lib zf fileMatchLimit patternMatchesPaths i d =
     (if i \<ge> length (workers d) then d
      else
        (case workers d ! i of
           Exited \<Rightarrow> d
         | LoopTop rg \<Rightarrow>
             d\<lparr>workers := (workers d)[i := (if ctxErr d \<noteq> None then Exited else Locking rg)]\<rparr>
         | Locking rg \<Rightarrow>
             (case files d of
                [] \<Rightarrow> d\<lparr>workers := (workers d)[i := Exited]\<rparr>
              | f # fs \<Rightarrow> d\<lparr>files := fs, workers := (workers d)[i := HasFile rg f]\<rparr>)
         | HasFile rg f \<Rightarrow>
             if \<not> matchPath rg (Name f)
             then d\<lparr>filesSkipped := (filesSkipped d + 1) mod 2 ^ 32,
                    workers := (workers d)[i := LoopTop rg]\<rparr>
             else
               (let d1 = d\<lparr>filesSearched := (filesSearched d + 1) mod 2 ^ 32\<rparr> in
                case FindZip rg zf f of
                  None \<Rightarrow> d1\<lparr>crashed := True\<rparr>
                | Some (rg', fm, Some err) \<Rightarrow>
                    (if wgErr d1 = None then cancel (d1\<lparr>wgErr := Some err\<rparr>) else d1)
                      \<lparr>workers := (workers d)[i := Exited]\<rparr>
                | Some (rg', fm, None) \<Rightarrow>
                    (let match0 = (length (LineMatches fm) > 0);
                         tryPath = (\<not> match0 \<and> patternMatchesPaths);
                         match = (if tryPath then matchString lib rg' (Name f) else match0);
                         fm = (if tryPath \<and> match then fm\<lparr>Path := Name f\<rparr> else fm)
                     in d1\<lparr>workers := (workers d)[i := (if match then HasMatch rg' fm
                                                        else LoopTop rg')]\<rparr>))
         | HasMatch rg fm \<Rightarrow>
             (if int (length (fileMatches d)) < fileMatchLimit
              then d\<lparr>fileMatches := fileMatches d @ [fm]\<rparr>
              else cancel (d\<lparr>limitHit := True\<rparr>))
               \<lparr>workers := (workers d)[i := LoopTop rg]\<rparr>))"

text \<open>
  What can happen in a run: a worker takes a step, the caller's context is cancelled, or a
  deadline (the caller's, or the 90 per cent timeout derived from it) passes. After a panic
  nothing runs.
\<close>

datatype action = Step nat | ParentCancel | DeadlinePasses

definition act :: "library \<Rightarrow> ZipFile \<Rightarrow> int \<Rightarrow> bool \<Rightarrow> driver \<Rightarrow> action \<Rightarrow> driver" where
  "act lib zf fileMatchLimit patternMatchesPaths d a =
     (if crashed d then d
      else (case a of
              Step i \<Rightarrow> workerStep lib zf fileMatchLimit patternMatchesPaths i d
            | ParentCancel \<Rightarrow> cancel d
            | DeadlinePasses \<Rightarrow>
                (if ctxErr d = None then d\<lparr>ctxErr := Some DeadlineExceeded\<rparr> else d)))"

definition hasExited :: "worker \<Rightarrow> bool" where
  "hasExited w = (case w of Exited \<Rightarrow> True | _ \<Rightarrow> False)"

definition startWorkers :: "readerGrep \<Rightarrow> ZipFile \<Rightarrow> driver" where
  "startWorkers rg zf =
     \<lparr>files = Files zf, fileMatches = [], limitHit = False, ctxErr = None, wgErr = None,
      filesSkipped = 0, filesSearched = 0,
      workers = replicate numWorkers (LoopTop (Copy rg)), crashed = False\<rparr>"

text \<open>
  \<open>concurrentFind\<close> under a schedule, the list of what happens while the workers run.
  \<open>wg.Wait()\<close> returns when every worker has returned; a schedule that ends before that is
  no complete run (\<open>OutOfFuel\<close>), and a panic in a worker ends the program.
\<close>

definition concurrentFind ::
  "library \<Rightarrow> action list \<Rightarrow> readerGrep \<Rightarrow> ZipFile \<Rightarrow> int \<Rightarrow> bool \<Rightarrow> bool \<Rightarrow>
   (FileMatch list \<times> bool \<times> error option) run" where
  "concurrentFind lib schedule rg zf fileMatchLimit0 patternMatchesContent0 patternMatchesPaths =
     (let patternMatchesContent =
            (if \<not> patternMatchesContent0 \<and> \<not> patternMatchesPaths then True
             else patternMatchesContent0);
          fileMatchLimit = clampLimit fileMatchLimit0
      in if patternMatchesPaths \<and> (\<not> patternMatchesContent \<or> Option.is_none (re rg)) then
           (case pathLoop lib rg fileMatchLimit (Files zf) [] of
              (ms, hit) \<Rightarrow> Return (ms, hit, None))
         else
           (let d = foldl (act lib zf fileMatchLimit patternMatchesPaths)
                      (startWorkers rg zf) schedule
            in if crashed d then Panic
               else if list_all hasExited (workers d) then
                 Return (fileMatches d, limitHit d,
                         (case wgErr d of
                            Some err \<Rightarrow> Some err
                          | None \<Rightarrow> if ctxErr d = Some DeadlineExceeded
                                    then Some DeadlineExceeded else None))
               else OutOfFuel))"

section \<open>Example library and requests\<close>

text \<open>
  An instance of the library for the examples: an include pattern stands for a suffix that a
  path must have, and a pattern compiles to the matcher of its text as a literal. The
  functions on parsed expressions are not reached by the examples that use it.
\<close>

definition hasSuffix :: "string \<Rightarrow> string \<Rightarrow> bool" where
  "hasSuffix s suf = (length suf \<le> length s \<and> drop (length s - length suf) s = suf)"

definition exampleLibrary :: library where
  "exampleLibrary =
     \<lparr>QuoteMeta = (\<lambda>s. s),
      Parse = (\<lambda>s. Inl (OtherError ''no parser'')),
      String_of = (\<lambda>_. []),
      Compile = (\<lambda>s. Inr (literalRegexp s)),
      Simplify = (\<lambda>r. r),
      CompilePathPatterns = (\<lambda>inc exc rx cs. Inr (\<lambda>name. list_all (hasSuffix name) inc)),
      ToLowerTable = (\<lambda>r. r),
      strings_ToLower = map toLowerASCII\<rparr>"

text \<open>The request of scenario 5: an empty pattern and the include pattern for Go files.\<close>

definition emptyPattern :: PatternInfo where
  "emptyPattern =
     \<lparr>Pattern = [], IsRegExp = False, IsWordMatch = False, IsCaseSensitive = True,
      AllIncludePatterns = [''.go''], ExcludePattern = [],
      PathPatternsAreRegExps = False, PathPatternsAreCaseSensitive = True,
      PatternMatchesContent = False, PatternMatchesPaths = True, FileMatchLimit = 0\<rparr>"

text \<open>The matcher \<open>compile\<close> returns for it.\<close>

definition emptyPatternGrep :: readerGrep where
  "emptyPatternGrep =
     \<lparr>re = None, ignoreCase = False, transformBuf = None,
      matchPath = (\<lambda>name. list_all (hasSuffix name) [''.go'']), literalSubstring = []\<rparr>"

definition file_a_go :: SrcFile where
  "file_a_go = \<lparr>Name = ''a.go'', Data = ''package a'' @ [nl]\<rparr>"

definition file_b_txt :: SrcFile where
  "file_b_txt = \<lparr>Name = ''b.txt'', Data = ''text'' @ [nl]\<rparr>"

definition file_c_go :: SrcFile where
  "file_c_go = \<lparr>Name = ''c.go'', Data = ''package c'' @ [nl]\<rparr>"

text \<open>A path-only file match, as the fast path of \<open>concurrentFind\<close> builds it.\<close>

definition pathOnly :: "SrcFile \<Rightarrow> FileMatch" where
  "pathOnly f = \<lparr>Path = Name f, LineMatches = [], FileLimitHit = False\<rparr>"

text \<open>The invariant of the result list and \<open>limitHit\<close> under the limit \<open>n\<close>.\<close>

definition withinLimit :: "int \<Rightarrow> driver \<Rightarrow> bool" where
  "withinLimit n d =
     (int (length (fileMatches d)) \<le> n \<and> (limitHit d \<longrightarrow> int (length (fileMatches d)) = n))"

text \<open>The file matches of \<open>file_simple\<close> and \<open>file_case\<close> for the literal \<open>foo\<close>.\<close>

definition match_simple :: FileMatch where
  "match_simple =
     \<lparr>Path = ''a.txt'',
      LineMatches =
        [\<lparr>Preview = ''foo bar'', LineNumber = 0, OffsetAndLengths = [(0, 3)], LimitHit = False\<rparr>,
         \<lparr>Preview = ''baz foo'', LineNumber = 1, OffsetAndLengths = [(4, 3)], LimitHit = False\<rparr>],
      FileLimitHit = False\<rparr>"



section \<open>What a parsed expression matches\<close>

text \<open>
  The meaning of a \<open>syntax.Regexp\<close>, after the documentation of \<open>regexp/syntax\<close>:
  \<open>reMatches rx t i j\<close> says that \<open>rx\<close> matches the runes \<open>i\<close> to \<open>j\<close> (exclusive) of the
  text \<open>t\<close>. A character class matches the runes in its stored ranges. A literal matches
  its runes, and with the \<open>FoldCase\<close> flag the runes of their fold orbits; the fold orbits
  that reach into ASCII are those of the letters, with the Kelvin sign in the orbit of \<open>k\<close>
  and the long s in the orbit of \<open>s\<close>.
\<close>

definition lowerRune :: "rune \<Rightarrow> rune" where
  "lowerRune r = (if 0x41 \<le> r \<and> r \<le> 0x5A then r + 32 else r)"

definition foldKey :: "rune \<Rightarrow> rune" where
  "foldKey r = (if r = 0x212A then 0x6B else if r = 0x17F then 0x73 else lowerRune r)"

definition runeMatches :: "bool \<Rightarrow> rune \<Rightarrow> rune \<Rightarrow> bool" where
  "runeMatches fc l c = (if fc then foldKey l = foldKey c else l = c)"

fun inClass :: "rune list \<Rightarrow> rune \<Rightarrow> bool" where
  "inClass (lo # hi # rest) c = ((lo \<le> c \<and> c \<le> hi) \<or> inClass rest c)"
| "inClass rest c = False"

definition isWordRune :: "rune \<Rightarrow> bool" where
  "isWordRune r =
     ((0x30 \<le> r \<and> r \<le> 0x39) \<or> (0x41 \<le> r \<and> r \<le> 0x5A) \<or> (0x61 \<le> r \<and> r \<le> 0x7A)
      \<or> r = 0x5F)"

definition wordBefore :: "rune list \<Rightarrow> nat \<Rightarrow> bool" where
  "wordBefore t i = (0 < i \<and> isWordRune (t ! (i - 1)))"

definition wordAfter :: "rune list \<Rightarrow> nat \<Rightarrow> bool" where
  "wordAfter t i = (i < length t \<and> isWordRune (t ! i))"

text \<open>\<open>k\<close> matches of \<open>P\<close> in a row, and the subexpressions of a concatenation in a row.\<close>

fun iter :: "(nat \<Rightarrow> nat \<Rightarrow> bool) \<Rightarrow> nat \<Rightarrow> nat \<Rightarrow> nat \<Rightarrow> bool" where
  "iter P 0 i j = (i = j)"
| "iter P (Suc k) i j = (\<exists>m \<in> {i..j}. P i m \<and> iter P k m j)"

fun matchSeq :: "('a \<Rightarrow> nat \<Rightarrow> nat \<Rightarrow> bool) \<Rightarrow> 'a list \<Rightarrow> nat \<Rightarrow> nat \<Rightarrow> bool" where
  "matchSeq f [] i j = (i = j)"
| "matchSeq f (s # ss) i j = (\<exists>m \<in> {i..j}. f s i m \<and> matchSeq f ss m j)"

lemma iter_cong [fundef_cong]:
  "k = k' \<Longrightarrow> i = i' \<Longrightarrow> j = j' \<Longrightarrow> (\<And>a b. P a b = Q a b) \<Longrightarrow> iter P k i j = iter Q k' i' j'"
  by (induction k' arbitrary: k i i') auto

lemma matchSeq_cong [fundef_cong]:
  "ss = ss' \<Longrightarrow> i = i' \<Longrightarrow> j = j' \<Longrightarrow> (\<And>s a b. s \<in> set ss' \<Longrightarrow> f s a b = g s a b) \<Longrightarrow>
   matchSeq f ss i j = matchSeq g ss' i' j'"
  by (induction ss' arbitrary: ss i i') auto

fun reMatches :: "Regexp \<Rightarrow> rune list \<Rightarrow> nat \<Rightarrow> nat \<Rightarrow> bool" where
  "reMatches (Regexp op fc sub rn rn0 mn mx) t i j =
     (i \<le> j \<and> j \<le> length t \<and>
      (case op of
         OpNoMatch \<Rightarrow> False
       | OpEmptyMatch \<Rightarrow> i = j
       | OpLiteral \<Rightarrow>
           j = i + length rn \<and> (\<forall>k < length rn. runeMatches fc (rn ! k) (t ! (i + k)))
       | OpCharClass \<Rightarrow> j = i + 1 \<and> inClass rn (t ! i)
       | OpAnyCharNotNL \<Rightarrow> j = i + 1 \<and> t ! i \<noteq> 0x0A
       | OpAnyChar \<Rightarrow> j = i + 1
       | OpBeginLine \<Rightarrow> i = j \<and> (i = 0 \<or> t ! (i - 1) = 0x0A)
       | OpEndLine \<Rightarrow> i = j \<and> (i = length t \<or> t ! i = 0x0A)
       | OpBeginText \<Rightarrow> i = j \<and> i = 0
       | OpEndText \<Rightarrow> i = j \<and> i = length t
       | OpWordBoundary \<Rightarrow> i = j \<and> wordBefore t i \<noteq> wordAfter t i
       | OpNoWordBoundary \<Rightarrow> i = j \<and> wordBefore t i = wordAfter t i
       | OpCapture \<Rightarrow> (case sub of [] \<Rightarrow> False | s # _ \<Rightarrow> reMatches s t i j)
       | OpStar \<Rightarrow> (case sub of [] \<Rightarrow> False | s # _ \<Rightarrow> (\<exists>k. iter (reMatches s t) k i j))
       | OpPlus \<Rightarrow>
           (case sub of [] \<Rightarrow> False | s # _ \<Rightarrow> (\<exists>k. 1 \<le> k \<and> iter (reMatches s t) k i j))
       | OpQuest \<Rightarrow> (case sub of [] \<Rightarrow> False | s # _ \<Rightarrow> i = j \<or> reMatches s t i j)
       | OpRepeat \<Rightarrow>
           (case sub of [] \<Rightarrow> False
            | s # _ \<Rightarrow> (\<exists>k. mn \<le> int k \<and> (mx = -1 \<or> int k \<le> mx) \<and> iter (reMatches s t) k i j))
       | OpConcat \<Rightarrow> matchSeq (\<lambda>s. reMatches s t) sub i j
       | OpAlternate \<Rightarrow> (\<exists>s \<in> set sub. reMatches s t i j)))"

text \<open>The text in ASCII lower case, as \<open>Find\<close> lowers the bytes of a file.\<close>

definition lowerText :: "rune list \<Rightarrow> rune list" where
  "lowerText t = map lowerRune t"

text \<open>
  Example classes, as the parser stores them: \<open>notUpper\<close> is \<open>[^A-Z]\<close> and \<open>notACXZ\<close> is
  \<open>[^A-CX-Z]\<close>; \<open>notUpperLowered\<close> and \<open>notACXZLowered\<close> are what \<open>lowerRegexpASCII\<close>
  makes of them.
\<close>

definition notUpper :: Regexp where
  "notUpper = Regexp OpCharClass False [] [0, 0x40, 0x5B, 0x10FFFF] [0, 0x40] 0 0"

definition notUpperLowered :: Regexp where
  "notUpperLowered =
     Regexp OpCharClass False [] [0, 0x40, 0x5B, 0x60, 0x7B, 0x10FFFF] [0, 0x40] 0 0"

definition notACXZ :: Regexp where
  "notACXZ =
     Regexp OpCharClass False [] [0, 0x40, 0x44, 0x57, 0x5B, 0x10FFFF] [0, 0x40] 0 0"

definition notACXZLowered :: Regexp where
  "notACXZLowered =
     Regexp OpCharClass False [] [0, 0x40, 0x44, 0x57, 0x5B, 0x60, 0x64, 0x10FFFF] [0, 0x40]
       0 0"

text \<open>
  The request for the regular expression \<open>(?i)foo\<close>, matched case-sensitively. The parser
  stores the literal of a case-insensitive group in upper case with the \<open>FoldCase\<close> flag
  (\<open>foldFOO\<close>); the compiled expression (\<open>caseFoldRegexp\<close>: the occurrences of the literal
  in the lower-cased text) has no literal prefix. \<open>foldLibrary\<close> is a library that answers
  so, and \<open>foldGrep\<close> the matcher \<open>compile\<close> builds with it.
\<close>

definition foldFOO :: Regexp where
  "foldFOO = Regexp OpLiteral True [] [0x46, 0x4F, 0x4F] [0x46, 0x4F] 0 0"

definition caseFoldRegexp :: "byte list \<Rightarrow> regexp" where
  "caseFoldRegexp lit =
     \<lparr>LiteralPrefix = [],
      FindIndex = (\<lambda>b. case litLocs 0 0 (bytesToLowerASCII b) lit of
                         [] \<Rightarrow> None | loc # _ \<Rightarrow> Some loc),
      FindAllIndex = (\<lambda>b n. take (nat n) (litLocs 0 0 (bytesToLowerASCII b) lit)),
      MatchString = (\<lambda>s. litLocs 0 0 (bytesToLowerASCII s) lit \<noteq> [])\<rparr>"

definition foldPattern :: PatternInfo where
  "foldPattern =
     \<lparr>Pattern = ''(?i)foo'', IsRegExp = True, IsWordMatch = False, IsCaseSensitive = True,
      AllIncludePatterns = [], ExcludePattern = [],
      PathPatternsAreRegExps = False, PathPatternsAreCaseSensitive = True,
      PatternMatchesContent = True, PatternMatchesPaths = False, FileMatchLimit = 0\<rparr>"

definition foldLibrary :: library where
  "foldLibrary =
     \<lparr>QuoteMeta = (\<lambda>s. s),
      Parse = (\<lambda>s. if s = ''(?m:(?i)foo)'' then Inr foldFOO else Inl (OtherError ''no parser'')),
      String_of = (\<lambda>_. []),
      Compile = (\<lambda>s. if s = ''(?m:(?i)foo)'' then Inr (caseFoldRegexp ''foo'')
                       else Inl (OtherError ''no compiler'')),
      Simplify = (\<lambda>r. r),
      CompilePathPatterns = (\<lambda>inc exc rx cs. Inr (\<lambda>name. True)),
      ToLowerTable = (\<lambda>r. r),
      strings_ToLower = map toLowerASCII\<rparr>"

definition foldGrep :: readerGrep where
  "foldGrep =
     \<lparr>re = Some (caseFoldRegexp ''foo''), ignoreCase = False, transformBuf = None,
      matchPath = (\<lambda>name. True), literalSubstring = ''FOO''\<rparr>"

definition file_foo :: SrcFile where
  "file_foo = \<lparr>Name = ''a.txt'', Data = ''foo'' @ [nl]\<rparr>"

text \<open>
  The runes \<open>i\<close> to \<open>j\<close> of a text, and the expressions without a \<open>FoldCase\<close> literal.
\<close>

definition textSlice :: "rune list \<Rightarrow> nat \<Rightarrow> nat \<Rightarrow> rune list" where
  "textSlice t i j = take (j - i) (drop i t)"

fun noFold :: "Regexp \<Rightarrow> bool" where
  "noFold (Regexp op fc sub rn rn0 mn mx) =
     ((op = OpLiteral \<longrightarrow> \<not> fc) \<and> (\<forall>s \<in> set sub. noFold s))"

section \<open>Properties of the file scanner\<close>

subsection \<open>What one iteration of the loop does\<close>

lemma slice_Some_iff:
  "slice b lo hi = Some x \<longleftrightarrow> 0 \<le> lo \<and> lo \<le> hi \<and> hi \<le> int (length b) \<and> x = sl b lo hi"
  by (auto simp: slice_def sl_def)

lemma emitLines_char:
  "emitLines buf b s e ls le off ml n i ln lines ms = Some ms' \<Longrightarrow>
   \<exists>group. ms' = ms @ group \<and> length group = length lines \<and>
     (\<forall>j < length lines. LineNumber (group ! j) = ln + int j \<and> LimitHit (group ! j) = b \<and>
        slice buf ls le = Some (Preview (group ! j)))"
proof (induction lines arbitrary: i ln ms)
  case Nil
  then show ?case by simp
next
  case (Cons line rest)
  from Cons.prems obtain lm where
    rec: "emitLines buf b s e ls le off ml n (i + 1) (ln + 1) rest (ms @ [lm]) = Some ms'"
    and lm: "LimitHit lm = b" "LineNumber lm = ln" "slice buf ls le = Some (Preview lm)"
    by (auto simp: Let_def split: bind_splits if_splits)
  from Cons.IH [OF rec] obtain g where
    g: "ms' = (ms @ [lm]) @ g" "length g = length rest"
       "\<forall>j < length rest. LineNumber (g ! j) = ln + 1 + int j \<and> LimitHit (g ! j) = b \<and>
          slice buf ls le = Some (Preview (g ! j))"
    by blast
  have "\<forall>j < length (line # rest). LineNumber ((lm # g) ! j) = ln + int j \<and>
          LimitHit ((lm # g) ! j) = b \<and> slice buf ls le = Some (Preview ((lm # g) ! j))"
  proof (intro allI impI)
    fix j assume "j < length (line # rest)"
    then show "LineNumber ((lm # g) ! j) = ln + int j \<and>
          LimitHit ((lm # g) ! j) = b \<and> slice buf ls le = Some (Preview ((lm # g) ! j))"
      using lm g(3) by (cases j) auto
  qed
  with g(1,2) show ?case
    by (intro exI [of _ "lm # g"]) simp
qed

lemma findStep_folded:
  "findStep fileMatchBuf lineLimitHit st match =
     do {
       let mstart = fst match;
       let mend = snd match;
       let blen = int (length fileMatchBuf);
       s1 \<leftarrow> slice fileMatchBuf (lastLineStartIndex st) mstart;
       let lineStart0 = lastLineStartIndex st + bytes_LastIndex s1 [nl];
       let llsi = nextL (lastLineStartIndex st) lineStart0;
       let lineStart1 = adjStart blen lineStart0;
       s2 \<leftarrow> slice fileMatchBuf mend blen;
       let lineEnd0 = mend + bytes_Index s2 [nl];
       let lineStart = clampNeg mstart lineStart1;
       let lineEnd = clampNeg mend lineEnd0;
       s3 \<leftarrow> slice fileMatchBuf llsi mstart;
       let offset = utf8_RuneCount s3;
       s4 \<leftarrow> slice fileMatchBuf mstart mend;
       let mlen = utf8_RuneCount s4;
       (lineNumber, matchIndex) \<leftarrow>
         hydrateLineNumbers fileMatchBuf (lastLineNumber st) (lastMatchIndex st) lineStart match;
       matchBuf \<leftarrow> slice fileMatchBuf lineStart lineEnd;
       let matchLines = bytes_SplitN1 matchBuf nl (nat (maxLineMatches + 1));
       if length matchLines > 1 then
         do {
           ms \<leftarrow> emitLines fileMatchBuf lineLimitHit mstart mend lineStart lineEnd offset mlen
                  (int (length matchLines)) 0 lineNumber matchLines (matches st);
           Some \<lparr>matches = ms, lastLineNumber = lineNumber, lastMatchIndex = matchIndex,
                  lastLineStartIndex = lineStart\<rparr>
         }
       else
         do {
           preview \<leftarrow> slice fileMatchBuf lineStart lineEnd;
           Some \<lparr>matches = matches st @
                    [\<lparr>Preview = preview, LineNumber = lineNumber,
                      OffsetAndLengths = [(offset, mlen)], LimitHit = lineLimitHit\<rparr>],
                  lastLineNumber = lineNumber, lastMatchIndex = matchIndex,
                  lastLineStartIndex = llsi\<rparr>
         }
     }"
  unfolding findStep_def nextL_def adjStart_def clampNeg_def by (rule refl)

lemma hydrate_Some_iff:
  "hydrateLineNumbers buf lln lmi ls (s, e) = Some (ln, mi) \<longleftrightarrow>
     0 \<le> lmi \<and> lmi \<le> s \<and> s \<le> int (length buf) \<and> ln = lln + bytes_Count1 (sl buf lmi s) nl \<and> mi = ls"
  by (auto simp: hydrateLineNumbers_def slice_Some_iff bind_eq_Some_conv)

lemma findStep_char:
  assumes "findStep buf b st (s, e) = Some st'"
  shows "0 \<le> lastLineStartIndex st \<and> lastLineStartIndex st \<le> s \<and> s \<le> e \<and> e \<le> int (length buf)
    \<and> 0 \<le> lastMatchIndex st \<and> lastMatchIndex st \<le> s
    \<and> lastLineNumber st' = lastLineNumber st + bytes_Count1 (sl buf (lastMatchIndex st) s) nl
    \<and> lastMatchIndex st' = lineStartOf buf (lastLineStartIndex st) s
    \<and> (lastLineStartIndex st' = nextLOf buf (lastLineStartIndex st) s \<or>
       lastLineStartIndex st' = lineStartOf buf (lastLineStartIndex st) s)
    \<and> (\<exists>group. matches st' = matches st @ group \<and> group \<noteq> [] \<and>
         (\<forall>j < length group. LineNumber (group ! j) = lastLineNumber st' + int j \<and>
            LimitHit (group ! j) = b \<and>
            slice buf (lineStartOf buf (lastLineStartIndex st) s) (lineEndOf buf e)
              = Some (Preview (group ! j))))"
proof (cases "length (bytes_SplitN1 (sl buf (lineStartOf buf (lastLineStartIndex st) s) (lineEndOf buf e)) nl (nat (maxLineMatches + 1))) > 1")
  case True
  with assms show ?thesis
    unfolding findStep_folded
    apply (simp add: Let_def bind_eq_Some_conv slice_Some_iff hydrate_Some_iff
        lineStartOf_def [symmetric] lineEndOf_def [symmetric] nextLOf_def [symmetric])
    apply (elim exE conjE)
    apply (drule emitLines_char)
    apply (auto simp: slice_Some_iff)
    done
next
  case False
  with assms show ?thesis
    unfolding findStep_folded
    by (auto simp add: Let_def bind_eq_Some_conv slice_Some_iff hydrate_Some_iff
        lineStartOf_def [symmetric] lineEndOf_def [symmetric] nextLOf_def [symmetric])
qed

lemma findLoop_LimitHit:
  "findLoop buf b st locs = Some st' \<Longrightarrow> \<forall>m \<in> set (matches st). LimitHit m = b \<Longrightarrow>
   \<forall>m \<in> set (matches st'). LimitHit m = b"
proof (induction locs arbitrary: st)
  case Nil
  then show ?case by simp
next
  case (Cons match locs)
  from Cons.prems(1) obtain st1 where
    step: "findStep buf b st (fst match, snd match) = Some st1"
    and rec: "findLoop buf b st1 locs = Some st'"
    by (auto simp: bind_eq_Some_conv)
  from findStep_char [OF step] obtain group where
    "matches st1 = matches st @ group" "\<forall>j < length group. LimitHit (group ! j) = b"
    by blast
  with Cons.prems(2) have "\<forall>m \<in> set (matches st1). LimitHit m = b"
    by (auto simp: in_set_conv_nth)
  with Cons.IH [OF rec] show ?case .
qed

text \<open>The two ways \<open>Find\<close> returns: early with no match, or after the loop over \<open>locs\<close>.\<close>

lemma Find_result_cases:
  assumes "Find_result rg zf f = Some (ms, lh, err)"
  shows "err = None \<and> lh = (int (length ms) = maxLineMatches) \<and>
    (ms = [] \<or>
     (\<exists>r st. re rg = Some r \<and> bytes_Contains (matchBufOf rg zf f) (literalSubstring rg) \<and>
        findLoop (matchBufOf rg zf f)
          (int (length (FindAllIndex r (matchBufOf rg zf f) maxFileMatches)) = maxOffsets) st0
          (FindAllIndex r (matchBufOf rg zf f) maxFileMatches) = Some st \<and>
        ms = matches st))"
proof -
  have buf: "ignoreCase rg' = ignoreCase rg \<Longrightarrow>
      (if ignoreCase rg' then
         (case transformBuf rg' of None \<Rightarrow> None
          | Some cap \<Rightarrow> if length (DataFor zf f) \<le> cap
                       then Some (bytesToLowerASCII (DataFor zf f)) else None)
       else Some (DataFor zf f)) = Some b \<Longrightarrow> b = matchBufOf rg zf f" for rg' :: readerGrep and b
    by (auto simp: matchBufOf_def split: option.splits if_splits)
  from assms show ?thesis
    unfolding Find_result_def Find_def Let_def st0_def [symmetric]
    apply (clarsimp simp: bind_eq_Some_conv)
    apply (drule buf [rotated])
     apply simp
    apply (auto simp: bind_eq_Some_conv maxLineMatches_def st0_def split: if_splits)
    done
qed


subsection \<open>The per-line limit flag\<close>

text \<open>
  C7: every line match that \<open>Find\<close> emits carries \<open>LimitHit = true\<close> exactly when the
  number of match locations collected by \<open>FindAllIndex\<close> with the cap \<open>maxFileMatches = 1000\<close>
  equals \<open>maxOffsets = 10\<close>.
\<close>

theorem Find_LimitHit_maxOffsets:
  assumes "Find_result rg zf f = Some (ms, lh, err)" and "m \<in> set ms"
  shows "\<exists>r. re rg = Some r \<and>
           LimitHit m =
             (length (FindAllIndex r (if ignoreCase rg then bytesToLowerASCII (DataFor zf f)
                                      else DataFor zf f) 1000) = 10)"
proof -
  from Find_result_cases [OF assms(1)] assms(2) obtain r st where
    r: "re rg = Some r"
    and loop: "findLoop (matchBufOf rg zf f)
          (int (length (FindAllIndex r (matchBufOf rg zf f) maxFileMatches)) = maxOffsets) st0
          (FindAllIndex r (matchBufOf rg zf f) maxFileMatches) = Some st"
    and ms: "ms = matches st"
    by auto
  have "\<forall>m \<in> set (matches st0). LimitHit m =
          (int (length (FindAllIndex r (matchBufOf rg zf f) maxFileMatches)) = maxOffsets)"
    by (simp add: st0_def)
  from findLoop_LimitHit [OF loop this] assms(2) ms
  have "LimitHit m = (int (length (FindAllIndex r (matchBufOf rg zf f) maxFileMatches)) = maxOffsets)"
    by blast
  with r show ?thesis
    by (simp add: matchBufOf_def maxFileMatches_def maxOffsets_def)
qed

theorem Find_LimitHit_maxOffsets_witness:
  "Find_result (literalGrep ''a'' False) \<lparr>Files = [], MaxLen = 2\<rparr> \<lparr>Name = ''f'', Data = ''a'' @ [nl]\<rparr>
     = Some ([\<lparr>Preview = ''a'', LineNumber = 0, OffsetAndLengths = [(0, 1)],
               LimitHit = False\<rparr>], False, None)
   \<and> (\<exists>r. re (literalGrep ''a'' False) = Some r \<and>
          LimitHit \<lparr>Preview = ''a'', LineNumber = 0, OffsetAndLengths = [(0, 1)],
                     LimitHit = False\<rparr> =
            (length (FindAllIndex r
               (if ignoreCase (literalGrep ''a'' False)
                then bytesToLowerASCII (DataFor \<lparr>Files = [], MaxLen = 2\<rparr> \<lparr>Name = ''f'', Data = ''a'' @ [nl]\<rparr>)
                else DataFor \<lparr>Files = [], MaxLen = 2\<rparr> \<lparr>Name = ''f'', Data = ''a'' @ [nl]\<rparr>) 1000) = 10))"
proof -
  have h: "Find_result (literalGrep ''a'' False) \<lparr>Files = [], MaxLen = 2\<rparr>
             \<lparr>Name = ''f'', Data = ''a'' @ [nl]\<rparr>
           = Some ([\<lparr>Preview = ''a'', LineNumber = 0, OffsetAndLengths = [(0, 1)],
                     LimitHit = False\<rparr>], False, None)"
    by code_simp
  show ?thesis
    using h Find_LimitHit_maxOffsets [OF h, of "\<lparr>Preview = ''a'', LineNumber = 0,
      OffsetAndLengths = [(0, 1)], LimitHit = False\<rparr>"]
    by simp
qed

subsection \<open>The error result\<close>

lemma FindZip_no_err:
  assumes "FindZip rg zf f = Some (rg', fm, err)"
  shows "err = None"
proof -
  from assms obtain lm hit where "Find rg zf f = Some (rg', lm, hit, err)"
    by (auto simp: FindZip_def bind_eq_Some_conv)
  then have "Find_result rg zf f = Some (lm, hit, err)"
    by (simp add: Find_result_def)
  from Find_result_cases [OF this] show ?thesis by simp
qed

lemma cancel_wgErr [simp]: "wgErr (cancel d) = wgErr d"
  by (simp add: cancel_def)

lemma workerStep_wgErr:
  assumes "wgErr d = None"
  shows "wgErr (workerStep lib zf n pmp i d) = None"
proof (cases "i \<ge> length (workers d)")
  case True
  with assms show ?thesis by (simp add: workerStep_def)
next
  case False
  show ?thesis
  proof (cases "workers d ! i")
    case (LoopTop rg)
    with False assms show ?thesis by (simp add: workerStep_def)
  next
    case (Locking rg)
    with False assms show ?thesis by (simp add: workerStep_def split: list.splits)
  next
    case (HasFile rg f)
    with False assms show ?thesis
      by (auto simp: workerStep_def Let_def split: option.splits prod.splits
          dest: FindZip_no_err)
  next
    case (HasMatch rg fm)
    with False assms show ?thesis by (simp add: workerStep_def)
  next
    case Exited
    with False assms show ?thesis by (simp add: workerStep_def)
  qed
qed

lemma run_wgErr:
  "wgErr d = None \<Longrightarrow> wgErr (foldl (act lib zf n pmp) d schedule) = None"
proof (induction schedule arbitrary: d)
  case Nil
  then show ?case by simp
next
  case (Cons a schedule)
  from Cons.prems have "wgErr (act lib zf n pmp d a) = None"
    by (cases a) (simp_all add: act_def workerStep_wgErr)
  then show ?case by (simp add: Cons.IH)
qed

text \<open>
  C10: whenever \<open>Find\<close> returns, the error it returns is nil, and so is the error
  \<open>FindZip\<close> hands to the driver; hence under no schedule does a worker of the driver latch
  an error in \<open>wgErr\<close>.
\<close>

theorem Find_err_nil:
  "(Find_result rg zf f = Some (ms, lh, err) \<longrightarrow> err = None) \<and>
   (map_option snd (FindZip rg zf f) = Some (fm, err') \<longrightarrow> err' = None) \<and>
   wgErr (foldl (act lib zf' n pmp) (startWorkers rg' zf') schedule) = None"
proof (intro conjI impI)
  assume "Find_result rg zf f = Some (ms, lh, err)"
  from Find_result_cases [OF this] show "err = None" by simp
next
  assume "map_option snd (FindZip rg zf f) = Some (fm, err')"
  then obtain rg1 where "FindZip rg zf f = Some (rg1, fm, err')"
    by auto
  then show "err' = None" by (rule FindZip_no_err)
next
  show "wgErr (foldl (act lib zf' n pmp) (startWorkers rg' zf') schedule) = None"
    by (rule run_wgErr) (simp add: startWorkers_def)
qed

theorem Find_err_nil_witness:
  "Find_result (literalGrep ''foo'' False) (archiveOf [file_simple]) file_simple
     = Some (LineMatches match_simple, False, None) \<and>
   map_option snd (FindZip (literalGrep ''foo'' False) (archiveOf [file_simple]) file_simple)
     = Some (match_simple, None) \<and>
   (None :: error option) = None"
proof -
  have h: "Find_result (literalGrep ''foo'' False) (archiveOf [file_simple]) file_simple
     = Some (LineMatches match_simple, False, None)"
    by code_simp
  have z: "map_option snd (FindZip (literalGrep ''foo'' False) (archiveOf [file_simple])
             file_simple) = Some (match_simple, None)"
    by code_simp
  show ?thesis
    using h z Find_err_nil [of "literalGrep ''foo'' False" "archiveOf [file_simple]"
      file_simple "LineMatches match_simple" False None match_simple None]
    by simp
qed

subsection \<open>Line numbers\<close>

lemma hasPrefix_single [simp]: "hasPrefix (x # s) [c] = (x = c)"
  by (cases s) simp_all

lemma lastIndexFrom_absent:
  "c \<notin> set x \<Longrightarrow> lastIndexFrom i found x [c] = found"
  by (induction x arbitrary: i found) auto

lemma lastIndexFrom_present:
  "c \<in> set x \<Longrightarrow> \<exists>p < length x. lastIndexFrom i found x [c] = i + int p \<and> x ! p = c \<and>
     c \<notin> set (drop (Suc p) x)"
proof (induction x arbitrary: i found)
  case Nil
  then show ?case by simp
next
  case (Cons a x)
  show ?case
  proof (cases "c \<in> set x")
    case True
    from Cons.IH [OF True, of "i + 1" "if a = c then i else found"]
    obtain p where "p < length x"
      "lastIndexFrom (i + 1) (if a = c then i else found) x [c] = i + 1 + int p"
      "x ! p = c" "c \<notin> set (drop (Suc p) x)"
      by blast
    then show ?thesis
      by (intro exI [of _ "Suc p"]) simp
  next
    case False
    with Cons.prems have "a = c" by simp
    with False show ?thesis
      by (intro exI [of _ 0]) (simp add: lastIndexFrom_absent)
  qed
qed

lemma sl_append: "0 \<le> a \<Longrightarrow> a \<le> b \<Longrightarrow> take (nat b) buf = take (nat a) buf @ sl buf a b"
proof -
  assume "0 \<le> a" "a \<le> b"
  then have "nat b = nat a + (nat b - nat a)" by simp
  then have "take (nat b) buf = take (nat a + (nat b - nat a)) buf" by simp
  also have "\<dots> = take (nat a) buf @ take (nat b - nat a) (drop (nat a) buf)"
    by (rule take_add)
  finally show ?thesis by (simp add: sl_def)
qed

lemma linesBefore_add:
  "0 \<le> a \<Longrightarrow> a \<le> b \<Longrightarrow> linesBefore buf b = linesBefore buf a + bytes_Count1 (sl buf a b) nl"
  by (simp add: linesBefore_def bytes_Count1_def sl_append [of a b buf])

lemma count_absent: "c \<notin> set x \<Longrightarrow> bytes_Count1 x c = 0"
  by (induction x) (auto simp: bytes_Count1_def)

lemma lineStartOf_same_line:
  assumes "0 \<le> L" "L \<le> s" "s < int (length buf)"
  shows "0 \<le> lineStartOf buf L s \<and> lineStartOf buf L s \<le> s \<and>
         nl \<notin> set (sl buf (lineStartOf buf L s) s)"
proof (cases "nl \<in> set (sl buf L s)")
  case False
  then have "bytes_LastIndex (sl buf L s) [nl] = -1"
    by (simp add: bytes_LastIndex_def lastIndexFrom_absent)
  moreover from assms have "buf \<noteq> []" by auto
  ultimately have "lineStartOf buf L s = L"
    using assms by (simp add: lineStartOf_def adjStart_def clampNeg_def)
  with assms False show ?thesis by simp
next
  case True
  from lastIndexFrom_present [OF True, of 0 "-1"] obtain p where
    p: "p < length (sl buf L s)" "bytes_LastIndex (sl buf L s) [nl] = int p"
       "nl \<notin> set (drop (Suc p) (sl buf L s))"
    by (auto simp: bytes_LastIndex_def)
  from p(1) assms have pb: "L + int p < s"
    by (simp add: sl_def)
  moreover from assms have "buf \<noteq> []" by auto
  ultimately have ls: "lineStartOf buf L s = L + int p + 1"
    using assms p(2) by (simp add: lineStartOf_def adjStart_def clampNeg_def)
  have "drop (Suc p) (sl buf L s) = sl buf (L + int p + 1) s"
    using assms pb by (simp add: sl_def drop_take nat_add_distrib add.commute) 
  with p(3) ls assms pb show ?thesis by simp
qed


lemma findStep_LineNumber:
  assumes step: "findStep buf b st (s, e) = Some st1"
    and inv: "lastLineNumber st = linesBefore buf (lastMatchIndex st)"
  shows "(\<exists>group. matches st1 = matches st @ group \<and> group \<noteq> [] \<and>
            (\<forall>j < length group. LineNumber (group ! j) = linesBefore buf s + int j)) \<and>
         (s < int (length buf) \<longrightarrow> lastLineNumber st1 = linesBefore buf (lastMatchIndex st1))"
proof -
  note c = findStep_char [OF step]
  from c have bounds: "0 \<le> lastLineStartIndex st" "lastLineStartIndex st \<le> s"
    "0 \<le> lastMatchIndex st" "lastMatchIndex st \<le> s"
    by simp_all
  from c inv have ln: "lastLineNumber st1 = linesBefore buf s"
    using linesBefore_add [OF bounds(3,4), of buf] by simp
  from c obtain group where
    g: "matches st1 = matches st @ group" "group \<noteq> []"
       "\<forall>j < length group. LineNumber (group ! j) = lastLineNumber st1 + int j"
    by blast
  have "lastLineNumber st1 = linesBefore buf (lastMatchIndex st1)" if "s < int (length buf)"
  proof -
    from lineStartOf_same_line [OF bounds(1,2) that] c
    have "0 \<le> lastMatchIndex st1" "lastMatchIndex st1 \<le> s"
      "nl \<notin> set (sl buf (lastMatchIndex st1) s)"
      by simp_all
    with linesBefore_add [of "lastMatchIndex st1" s buf] ln show ?thesis
      by (simp add: count_absent)
  qed
  with g ln show ?thesis by auto
qed

lemma findLoop_LineNumber:
  assumes "findLoop buf b st locs = Some st'"
    and "sorted_wrt (\<lambda>a c. fst a < fst c) locs"
    and "locs \<noteq> [] \<longrightarrow> lastLineNumber st = linesBefore buf (lastMatchIndex st)"
  shows "\<exists>groups. matches st' = matches st @ concat groups \<and> length groups = length locs \<and>
           (\<forall>k < length locs. groups ! k \<noteq> [] \<and>
              (\<forall>j < length (groups ! k).
                 LineNumber (groups ! k ! j) = linesBefore buf (fst (locs ! k)) + int j))"
  using assms
proof (induction locs arbitrary: st)
  case Nil
  then show ?case by simp
next
  case (Cons match locs)
  from Cons.prems(1) obtain st1 where
    step: "findStep buf b st (fst match, snd match) = Some st1"
    and rec: "findLoop buf b st1 locs = Some st'"
    by (auto simp: bind_eq_Some_conv)
  from Cons.prems(3) have inv: "lastLineNumber st = linesBefore buf (lastMatchIndex st)"
    by simp
  from findStep_LineNumber [OF step inv] obtain group where
    g: "matches st1 = matches st @ group" "group \<noteq> []"
       "\<forall>j < length group. LineNumber (group ! j) = linesBefore buf (fst match) + int j"
    and inv1: "fst match < int (length buf) \<longrightarrow>
                 lastLineNumber st1 = linesBefore buf (lastMatchIndex st1)"
    by blast
  have inv1': "locs \<noteq> [] \<longrightarrow> lastLineNumber st1 = linesBefore buf (lastMatchIndex st1)"
  proof
    assume "locs \<noteq> []"
    then obtain m2 rest where locs: "locs = m2 # rest" by (cases locs) auto
    with rec obtain st2 where "findStep buf b st1 (fst m2, snd m2) = Some st2"
      by (auto simp: bind_eq_Some_conv)
    from findStep_char [OF this] have "fst m2 \<le> int (length buf)" by simp
    moreover from Cons.prems(2) locs have "fst match < fst m2" by simp
    ultimately show "lastLineNumber st1 = linesBefore buf (lastMatchIndex st1)"
      using inv1 by simp
  qed
  from Cons.prems(2) have "sorted_wrt (\<lambda>a c. fst a < fst c) locs" by simp
  from Cons.IH [OF rec this inv1'] obtain groups where
    gs: "matches st' = matches st1 @ concat groups" "length groups = length locs"
        "\<forall>k < length locs. groups ! k \<noteq> [] \<and>
           (\<forall>j < length (groups ! k).
              LineNumber (groups ! k ! j) = linesBefore buf (fst (locs ! k)) + int j)"
    by blast
  have "\<forall>k < length (match # locs). (group # groups) ! k \<noteq> [] \<and>
           (\<forall>j < length ((group # groups) ! k).
              LineNumber ((group # groups) ! k ! j) =
                linesBefore buf (fst ((match # locs) ! k)) + int j)"
  proof (intro allI impI)
    fix k assume "k < length (match # locs)"
    then show "(group # groups) ! k \<noteq> [] \<and>
           (\<forall>j < length ((group # groups) ! k).
              LineNumber ((group # groups) ! k ! j) =
                linesBefore buf (fst ((match # locs) ! k)) + int j)"
      using g(2,3) gs(3) by (cases k) simp_all
  qed
  with g(1) gs(1,2) show ?case
    by (intro exI [of _ "group # groups"]) simp
qed

lemma toLowerASCII_nl: "toLowerASCII c = nl \<longleftrightarrow> c = nl"
proof (cases "(0x41::nat) \<le> of_char c \<and> of_char c \<le> (0x5A::nat)")
  case True
  have "char_of (of_char c + (32::nat)) \<noteq> nl"
  proof
    assume "char_of (of_char c + (32::nat)) = nl"
    then have "(of_char (char_of (of_char c + (32::nat)) :: char) :: nat) = of_char nl"
      by simp
    with True show False by (simp add: nl_def)
  qed
  moreover from True have "c \<noteq> nl" by (auto simp: nl_def)
  ultimately show ?thesis using True by (auto simp: toLowerASCII_def)
next
  case False
  then show ?thesis by (auto simp: toLowerASCII_def)
qed

lemma linesBefore_lower: "linesBefore (bytesToLowerASCII b) s = linesBefore b s"
proof -
  have "filter (\<lambda>x. x = nl) (map toLowerASCII xs) = map toLowerASCII (filter (\<lambda>x. x = nl) xs)" for xs
    by (induction xs) (auto simp: toLowerASCII_nl)
  then show ?thesis
    by (simp add: linesBefore_def bytes_Count1_def bytesToLowerASCII_def take_map)
qed

lemma linesBefore_matchBuf: "linesBefore (matchBufOf rg zf f) s = linesBefore (DataFor zf f) s"
  by (simp add: matchBufOf_def linesBefore_lower)

text \<open>
  C2 (as amended): \<open>LineNumber\<close> is 0-based. When the starts of the match locations
  increase, the line matches \<open>Find\<close> returns are, location by location, one non-empty
  group each; the first line match of a group carries the number of newline bytes of the file
  before the start byte of its location (0 on the first line, \<open>n - 1\<close> on physical line \<open>n\<close>), and the
  further ones, emitted when the span of the location holds several lines, count on from there.
\<close>

theorem Find_LineNumber_zero_based:
  assumes "Find_result rg zf f = Some (ms, lh, err)" and "ms \<noteq> []"
    and "re rg = Some r"
    and "sorted_wrt (\<lambda>a c. fst a < fst c) (FindAllIndex r (matchBufOf rg zf f) 1000)"
  shows "\<exists>groups. ms = concat groups \<and>
           length groups = length (FindAllIndex r (matchBufOf rg zf f) 1000) \<and>
           (\<forall>k < length groups. groups ! k \<noteq> [] \<and>
              (\<forall>j < length (groups ! k).
                 LineNumber (groups ! k ! j) =
                   linesBefore (DataFor zf f)
                     (fst (FindAllIndex r (matchBufOf rg zf f) 1000 ! k)) + int j))"
proof -
  let ?locs = "FindAllIndex r (matchBufOf rg zf f) 1000"
  from Find_result_cases [OF assms(1)] assms(2,3) obtain st where
    loop: "findLoop (matchBufOf rg zf f) (int (length ?locs) = maxOffsets) st0 ?locs = Some st"
    and ms: "ms = matches st"
    by (auto simp: maxFileMatches_def)
  have "?locs \<noteq> [] \<longrightarrow> lastLineNumber st0 = linesBefore (matchBufOf rg zf f) (lastMatchIndex st0)"
    by (simp add: st0_def linesBefore_def bytes_Count1_def)
  from findLoop_LineNumber [OF loop assms(4) this] ms show ?thesis
    by (auto simp: st0_def linesBefore_matchBuf)
qed

theorem Find_LineNumber_zero_based_witness:
  "Find_result (literalGrep ''foo'' False) (archiveOf [file_simple]) file_simple =
     Some ([\<lparr>Preview = ''foo bar'', LineNumber = 0, OffsetAndLengths = [(0, 3)],
              LimitHit = False\<rparr>,
            \<lparr>Preview = ''baz foo'', LineNumber = 1, OffsetAndLengths = [(4, 3)],
              LimitHit = False\<rparr>], False, None) \<and>
   sorted_wrt (\<lambda>a c. fst a < fst c) (FindAllIndex (literalRegexp ''foo'')
     (matchBufOf (literalGrep ''foo'' False) (archiveOf [file_simple]) file_simple) 1000) \<and>
   (\<exists>groups.
      [\<lparr>Preview = ''foo bar'', LineNumber = 0, OffsetAndLengths = [(0, 3)], LimitHit = False\<rparr>,
       \<lparr>Preview = ''baz foo'', LineNumber = 1, OffsetAndLengths = [(4, 3)], LimitHit = False\<rparr>]
        = concat groups \<and>
      length groups = length (FindAllIndex (literalRegexp ''foo'')
        (matchBufOf (literalGrep ''foo'' False) (archiveOf [file_simple]) file_simple) 1000) \<and>
      (\<forall>k < length groups. groups ! k \<noteq> [] \<and>
         (\<forall>j < length (groups ! k).
            LineNumber (groups ! k ! j) =
              linesBefore (DataFor (archiveOf [file_simple]) file_simple)
                (fst (FindAllIndex (literalRegexp ''foo'')
                  (matchBufOf (literalGrep ''foo'' False) (archiveOf [file_simple]) file_simple)
                  1000 ! k)) + int j)))"
proof -
  have h: "Find_result (literalGrep ''foo'' False) (archiveOf [file_simple]) file_simple =
     Some ([\<lparr>Preview = ''foo bar'', LineNumber = 0, OffsetAndLengths = [(0, 3)],
              LimitHit = False\<rparr>,
            \<lparr>Preview = ''baz foo'', LineNumber = 1, OffsetAndLengths = [(4, 3)],
              LimitHit = False\<rparr>], False, None)"
    by code_simp
  have r: "re (literalGrep ''foo'' False) = Some (literalRegexp ''foo'')"
    by (simp add: literalGrep_def)
  have srt: "sorted_wrt (\<lambda>a c. fst a < fst c) (FindAllIndex (literalRegexp ''foo'')
     (matchBufOf (literalGrep ''foo'' False) (archiveOf [file_simple]) file_simple) 1000)"
    by code_simp
  have ne: "[\<lparr>Preview = ''foo bar'', LineNumber = 0, OffsetAndLengths = [(0, 3)],
              LimitHit = False\<rparr>,
            \<lparr>Preview = ''baz foo'', LineNumber = 1, OffsetAndLengths = [(4, 3)],
              LimitHit = False\<rparr>] \<noteq> []"
    by simp
  from h srt Find_LineNumber_zero_based [OF h ne r srt] show ?thesis
    by (intro conjI)
qed

text \<open>
  The first scenario of the specification: the match on the first line gets \<open>LineNumber\<close> 0
  and the match on the second line 1, where a 1-based count would give 1 and 2.
\<close>

theorem Find_LineNumber_not_one_based:
  "map_option (map LineNumber \<circ> fst)
     (Find_result (literalGrep ''foo'' False) (archiveOf [file_simple]) file_simple) = Some [0, 1]"
  by code_simp

subsection \<open>Previews\<close>

text \<open>
  C1 at two inputs. With \<open>ignoreCase\<close> the previews are cut from the lower-cased buffer, so
  the line \<open>FOO\<close> is previewed as \<open>foo\<close>; and when no newline follows the match, the preview
  ends one byte before the end of the match (\<open>fo\<close> for the file \<open>foo bar\<close>) instead of at the
  end of the file.
\<close>

theorem Find_Preview_not_original_line:
  "map_option (map Preview \<circ> fst)
     (Find_result (literalGrep ''foo'' True) (archiveOf [file_case]) file_case)
     = Some [''foo'', ''foo''] \<and>
   map_option (map Preview \<circ> fst)
     (Find_result (literalGrep ''foo'' False) (archiveOf [file_no_newline]) file_no_newline)
     = Some [''fo'']"
  by code_simp

section \<open>Properties of the literal extractor\<close>

lemma foldl_keepLonger:
  "\<forall>s \<in> set subs. f s \<noteq> None \<Longrightarrow>
   \<exists>l. foldl (\<lambda>longest s. keepLonger longest (f s)) (Some acc) subs = Some l \<and>
       (l = acc \<or> Some l \<in> f ` set subs) \<and> length acc \<le> length l \<and>
       (\<forall>s \<in> set subs. \<forall>x. f s = Some x \<longrightarrow> length x \<le> length l)"
proof (induction subs arbitrary: acc)
  case Nil
  then show ?case by simp
next
  case (Cons s subs)
  from Cons.prems obtain x where x: "f s = Some x" by auto
  let ?acc = "if length x > length acc then x else acc"
  from Cons.prems have "\<forall>s \<in> set subs. f s \<noteq> None" by simp
  from Cons.IH [OF this, of ?acc] obtain l where
    l: "foldl (\<lambda>longest s. keepLonger longest (f s)) (Some ?acc) subs = Some l"
       "l = ?acc \<or> Some l \<in> f ` set subs" "length ?acc \<le> length l"
       "\<forall>s \<in> set subs. \<forall>x. f s = Some x \<longrightarrow> length x \<le> length l"
    by blast
  have step: "keepLonger (Some acc) (f s) = Some ?acc"
    by (simp add: keepLonger_def x)
  have "l = acc \<or> Some l \<in> f ` set (s # subs)"
  proof (cases "l = ?acc")
    case True
    then show ?thesis using x by (cases "length x > length acc") (auto intro: rev_image_eqI)
  next
    case False
    with l(2) show ?thesis by auto
  qed
  moreover have "length acc \<le> length l" "length x \<le> length l"
    using l(3) by (auto split: if_splits)
  ultimately show ?case
    using l(1,4) x step by auto
qed

text \<open>
  C8: the rules of \<open>longestLiteral\<close> by node kind. A literal gives its runes as a string;
  a capture, a one-or-more repetition, and a general repetition with minimum count at least 1
  give the result on their child; a concatenation whose children all have a result gives the
  empty string or the result of one of its children, and none of its children has a longer
  one; every other operator (and a repetition with minimum count 0) gives the empty string.
\<close>

theorem longestLiteral_rules:
  "(Op rx = OpLiteral \<longrightarrow> longestLiteral rx = Some (runesToString (Rune rx))) \<and>
   ((Op rx = OpCapture \<or> Op rx = OpPlus) \<longrightarrow>
      (\<forall>s ss. Sub rx = s # ss \<longrightarrow> longestLiteral rx = longestLiteral s)) \<and>
   (Op rx = OpRepeat \<longrightarrow>
      (Min_rep rx \<ge> 1 \<longrightarrow> (\<forall>s ss. Sub rx = s # ss \<longrightarrow> longestLiteral rx = longestLiteral s)) \<and>
      (Min_rep rx < 1 \<longrightarrow> longestLiteral rx = Some [])) \<and>
   (Op rx = OpConcat \<longrightarrow> (\<forall>s \<in> set (Sub rx). longestLiteral s \<noteq> None) \<longrightarrow>
      (\<exists>l. longestLiteral rx = Some l \<and>
           (l = [] \<or> Some l \<in> longestLiteral ` set (Sub rx)) \<and>
           (\<forall>s \<in> set (Sub rx). \<forall>x. longestLiteral s = Some x \<longrightarrow> length x \<le> length l))) \<and>
   (Op rx \<notin> {OpLiteral, OpCapture, OpPlus, OpRepeat, OpConcat} \<longrightarrow> longestLiteral rx = Some [])"
proof (cases rx)
  case (Regexp op fc sub rn rn0 mn mx)
  have concat: "\<forall>s \<in> set sub. longestLiteral s \<noteq> None \<Longrightarrow>
      \<exists>l. foldl (\<lambda>longest s. keepLonger longest (longestLiteral s)) (Some []) sub = Some l \<and>
        (l = [] \<or> Some l \<in> longestLiteral ` set sub) \<and>
        (\<forall>s \<in> set sub. \<forall>x. longestLiteral s = Some x \<longrightarrow> length x \<le> length l)"
    using foldl_keepLonger [of sub longestLiteral "[]"] by blast
  show ?thesis
    unfolding Regexp using concat by (cases op) simp_all
qed

theorem longestLiteral_rules_witness:
  "longestLiteral (litNode ''abc'') = Some ''abc'' \<and>
   longestLiteral (opNode OpCapture [litNode ''abc'']) = longestLiteral (litNode ''abc'') \<and>
   longestLiteral (opNode OpPlus [litNode ''abc'']) = longestLiteral (litNode ''abc'') \<and>
   longestLiteral (repeatNode 2 3 (litNode ''abc'')) = longestLiteral (litNode ''abc'') \<and>
   longestLiteral (repeatNode 0 3 (litNode ''abc'')) = Some [] \<and>
   (\<exists>l. longestLiteral (opNode OpConcat [litNode ''ab'', opNode OpStar [litNode ''wxyz''],
           opNode OpPlus [litNode ''cde''], litNode ''fgh'']) = Some l \<and>
        (l = [] \<or> Some l \<in> longestLiteral ` set [litNode ''ab'', opNode OpStar [litNode ''wxyz''],
           opNode OpPlus [litNode ''cde''], litNode ''fgh'']) \<and>
        (\<forall>s \<in> set [litNode ''ab'', opNode OpStar [litNode ''wxyz''],
           opNode OpPlus [litNode ''cde''], litNode ''fgh''].
           \<forall>x. longestLiteral s = Some x \<longrightarrow> length x \<le> length l)) \<and>
   longestLiteral (opNode OpAlternate [litNode ''abc'', litNode ''abd'']) = Some []"
proof -
  have enc: "runesToString (map of_char ''abc'') = ''abc''"
    by code_simp
  have ne: "\<forall>s \<in> set [litNode ''ab'', opNode OpStar [litNode ''wxyz''],
           opNode OpPlus [litNode ''cde''], litNode ''fgh'']. longestLiteral s \<noteq> None"
    by (simp add: litNode_def opNode_def)
  show ?thesis
    using longestLiteral_rules [of "litNode ''abc''"]
      longestLiteral_rules [of "opNode OpCapture [litNode ''abc'']"]
      longestLiteral_rules [of "opNode OpPlus [litNode ''abc'']"]
      longestLiteral_rules [of "repeatNode 2 3 (litNode ''abc'')"]
      longestLiteral_rules [of "repeatNode 0 3 (litNode ''abc'')"]
      longestLiteral_rules [of "opNode OpConcat [litNode ''ab'', opNode OpStar [litNode ''wxyz''],
           opNode OpPlus [litNode ''cde''], litNode ''fgh'']"]
      longestLiteral_rules [of "opNode OpAlternate [litNode ''abc'', litNode ''abd'']"]
      ne enc
    by (simp add: litNode_def opNode_def repeatNode_def)
qed

section \<open>Properties of \<open>readAll\<close>\<close>

lemma readAll_plain_stream:
  assumes "0 < chunk"
  shows "readAll (Suc (Suc (min r lenb))) (streamReader chunk False) r lenb n =
           Return (if r \<le> lenb then (n + r, None) else (n + lenb, Some ReaderTooLarge))"
proof (induction "min r lenb" arbitrary: r lenb n rule: less_induct)
  case less
  show ?case
  proof (cases "lenb = 0 \<or> r = 0")
    case True
    then show ?thesis
      by (auto simp: streamReader_def Let_def)
  next
    case False
    define m where "m = min (min lenb chunk) r"
    from False assms have m: "0 < m" "m \<le> r" "m \<le> lenb"
      by (auto simp: m_def)
    then have lt: "min (r - m) (lenb - m) < min r lenb" by auto
    have fuel: "Suc (min r lenb) = Suc (Suc (min (r - m) (lenb - m))) + (m - 1)"
      using m by auto
    have more: "readAll (f + d) rd s k a = Return v" if "readAll f rd s k a = Return v"
      for f d and rd :: "nat reader" and s k a v
      using that
    proof (induction f rd s k a rule: readAll.induct)
      case (1 rd r lenb n)
      then show ?case by simp
    next
      case (2 fuel rd r lenb n)
      then show ?case
        by (auto split: prod.splits if_splits option.splits)
    qed
    have "readAll (Suc (Suc (min r lenb))) (streamReader chunk False) r lenb n =
            readAll (Suc (min r lenb)) (streamReader chunk False) (r - m) (lenb - m) (n + m)"
      using False m by (simp add: streamReader_def Let_def m_def)
    also have "\<dots> = Return (if r - m \<le> lenb - m then (n + m + (r - m), None)
                             else (n + m + (lenb - m), Some ReaderTooLarge))"
      unfolding fuel by (rule more) (rule less [OF lt])
    finally show ?thesis using m by auto
  qed
qed

text \<open>
  C9 at a reader the contract of \<open>io.Reader\<close> allows: a stream of 11 bytes, read in chunks
  of 4, whose last \<open>Read\<close> returns its bytes together with \<open>io.EOF\<close>, and a buffer of 10
  bytes. When the buffer is full one byte of the stream is left; the probing \<open>Read\<close> into
  \<open>scratch\<close> returns \<open>1, io.EOF\<close>, the count is dropped, and \<open>readAll\<close> returns 10 with a
  nil error. The same reader without the early \<open>io.EOF\<close> gets the error.
\<close>

theorem readAll_drops_byte_read_with_EOF:
  "readAll 5 (streamReader 4 True) 11 10 0 = Return (10, None) \<and>
   readAll 5 (streamReader 4 False) 11 10 0 = Return (10, Some ReaderTooLarge)"
  by code_simp

section \<open>Properties of the concurrent driver\<close>

subsection \<open>The file-match limit\<close>



lemma cancel_withinLimit [simp]: "withinLimit n (cancel d) = withinLimit n d"
  by (simp add: withinLimit_def cancel_def)

lemma withinLimit_upd [simp]:
  "withinLimit n (d\<lparr>workers := ws\<rparr>) = withinLimit n d"
  "withinLimit n (d\<lparr>files := fs\<rparr>) = withinLimit n d"
  "withinLimit n (d\<lparr>filesSkipped := k\<rparr>) = withinLimit n d"
  "withinLimit n (d\<lparr>filesSearched := k\<rparr>) = withinLimit n d"
  "withinLimit n (d\<lparr>crashed := c\<rparr>) = withinLimit n d"
  "withinLimit n (d\<lparr>wgErr := e\<rparr>) = withinLimit n d"
  "withinLimit n (d\<lparr>ctxErr := e\<rparr>) = withinLimit n d"
  by (simp_all add: withinLimit_def)








subsection \<open>The empty pattern\<close>

lemma pathLoop_take:
  assumes "int (length ms) \<le> n"
  shows "pathLoop lib rg n fs ms =
     (ms @ map pathOnly
        (take (nat n - length ms)
           (filter (\<lambda>f. matchPath rg (Name f) \<and> matchString lib rg (Name f)) fs)),
      int (length ms) +
        int (length (filter (\<lambda>f. matchPath rg (Name f) \<and> matchString lib rg (Name f)) fs)) > n)"
  using assms
proof (induction fs arbitrary: ms)
  case Nil
  then show ?case by simp
next
  case (Cons f fs)
  show ?case
  proof (cases "matchPath rg (Name f) \<and> matchString lib rg (Name f)")
    case False
    with Cons.IH [OF Cons.prems] show ?thesis by auto
  next
    case True
    show ?thesis
    proof (cases "int (length ms) < n")
      case less: True
      then have le: "int (length (ms @ [pathOnly f])) \<le> n" by simp
      from less have "nat n - length ms = Suc (nat n - length (ms @ [pathOnly f]))"
        by simp
      with True less Cons.IH [OF le] show ?thesis
        by (simp add: pathOnly_def) arith
    next
      case False
      with Cons.prems have "nat n - length ms = 0" by simp
      with True False show ?thesis by simp
    qed
  qed
qed

lemma compile_empty_pattern:
  assumes "Pattern p = []" and "compile lib p = Some (Inr rg)"
  shows "re rg = None \<and> literalSubstring rg = []"
  using assms
  by (auto simp: compile_def split: sum.splits)

text \<open>
  C3 (as amended): when \<open>pattern\<close> is empty and \<open>compile\<close> succeeds, the regex of the matcher
  is absent; and with \<open>patternMatchesPaths\<close> set, for every archive, limit, schedule and
  setting of \<open>patternMatchesContent\<close>, \<open>concurrentFind\<close> returns with a nil error the
  path-only matches of the files whose path passes the path filter, in archive order, up to
  the effective limit, with \<open>limitHit\<close> exactly when more files pass than the limit allows.
\<close>

theorem empty_pattern_reports_paths:
  assumes "Pattern p = []" and "compile lib p = Some (Inr rg)"
  shows "re rg = None \<and>
         concurrentFind lib schedule rg zf fileMatchLimit pmc True =
           Return (map pathOnly (take (nat (clampLimit fileMatchLimit))
                     (filter (\<lambda>f. matchPath rg (Name f)) (Files zf))),
                   int (length (filter (\<lambda>f. matchPath rg (Name f)) (Files zf)))
                     > clampLimit fileMatchLimit,
                   None)"
proof -
  from compile_empty_pattern [OF assms] have nil: "re rg = None" by simp
  then have ms: "matchString lib rg s" for s by (simp add: matchString_def)
  have "0 \<le> clampLimit fileMatchLimit"
    by (simp add: clampLimit_def maxFileMatches_def)
  then have "int (length ([] :: FileMatch list)) \<le> clampLimit fileMatchLimit" by simp
  from pathLoop_take [OF this, of lib rg "Files zf"] nil show ?thesis
    by (simp add: concurrentFind_def Let_def ms)
qed

theorem empty_pattern_reports_paths_witness:
  "Pattern emptyPattern = [] \<and>
   compile exampleLibrary emptyPattern = Some (Inr emptyPatternGrep) \<and>
   re emptyPatternGrep = None \<and>
   concurrentFind exampleLibrary [] emptyPatternGrep (archiveOf [file_a_go, file_b_txt]) 0
     False True =
     Return (map pathOnly (take (nat (clampLimit 0))
                (filter (\<lambda>f. matchPath emptyPatternGrep (Name f))
                   (Files (archiveOf [file_a_go, file_b_txt])))),
             int (length (filter (\<lambda>f. matchPath emptyPatternGrep (Name f))
                   (Files (archiveOf [file_a_go, file_b_txt])))) > clampLimit 0,
             None) \<and>
   map pathOnly (take (nat (clampLimit 0))
                (filter (\<lambda>f. matchPath emptyPatternGrep (Name f))
                   (Files (archiveOf [file_a_go, file_b_txt])))) = [pathOnly file_a_go]"
proof -
  have p: "Pattern emptyPattern = []"
    by (simp add: emptyPattern_def)
  have c: "compile exampleLibrary emptyPattern = Some (Inr emptyPatternGrep)"
    by (simp add: compile_def emptyPattern_def exampleLibrary_def emptyPatternGrep_def)
  have e: "map pathOnly (take (nat (clampLimit 0))
                (filter (\<lambda>f. matchPath emptyPatternGrep (Name f))
                   (Files (archiveOf [file_a_go, file_b_txt])))) = [pathOnly file_a_go]"
    by code_simp
  from p c e empty_pattern_reports_paths [OF p c, of "[]" "archiveOf [file_a_go, file_b_txt]" 0 False]
  show ?thesis by (intro conjI) simp_all
qed

text \<open>
  The claim without these restrictions fails twice for the matcher of the empty pattern.
  With \<open>patternMatchesPaths\<close> unset the general path runs \<open>Find\<close>, which dereferences the
  absent regex, and the first worker to hold a file that passes the path filter panics. With
  it set, two files pass the filter and the limit 1 lets one of them through.
\<close>

theorem empty_pattern_fails_or_truncates:
  "compile exampleLibrary emptyPattern = Some (Inr emptyPatternGrep) \<and>
   concurrentFind exampleLibrary [Step 0, Step 0, Step 0] emptyPatternGrep
     (archiveOf [file_a_go, file_b_txt]) 0 True False = Panic \<and>
   concurrentFind exampleLibrary [] emptyPatternGrep
     (archiveOf [file_a_go, file_b_txt, file_c_go]) 1 False True
     = Return ([pathOnly file_a_go], True, None)"
proof (intro conjI)
  show "compile exampleLibrary emptyPattern = Some (Inr emptyPatternGrep)"
    by (simp add: compile_def emptyPattern_def exampleLibrary_def emptyPatternGrep_def)
  show "concurrentFind exampleLibrary [Step 0, Step 0, Step 0] emptyPatternGrep
     (archiveOf [file_a_go, file_b_txt]) 0 True False = Panic"
    by code_simp
  show "concurrentFind exampleLibrary [] emptyPatternGrep
     (archiveOf [file_a_go, file_b_txt, file_c_go]) 1 False True
     = Return ([pathOnly file_a_go], True, None)"
    by code_simp
qed

section \<open>Properties of the case folder\<close>

text \<open>
  C5 at the class \<open>[^A-CX-Z]\<close>. For the one-gap class \<open>[^A-Z]\<close> the exclusion branch does
  what its comment announces: the lowered class is \<open>[^A-Za-z]\<close>. In \<open>[^A-CX-Z]\<close> the last
  range meets both excluded gaps, and the loop that copies the ranges cuts only the first
  one out of it: the lowered class excludes \<open>a-c\<close> but still holds \<open>x-z\<close>. The class rejects
  \<open>A\<close> and \<open>X\<close> alike; lowered, it rejects the lower-cased \<open>A\<close> and accepts the lower-cased
  \<open>X\<close>.
\<close>

theorem lowerRegexpASCII_misses_second_gap:
  "lowerRegexpASCII (\<lambda>r. r) notUpper = Some notUpperLowered \<and>
   lowerRegexpASCII (\<lambda>r. r) notACXZ = Some notACXZLowered \<and>
   \<not> reMatches notACXZ [0x41] 0 1 \<and>
   \<not> reMatches notACXZ [0x58] 0 1 \<and>
   \<not> reMatches notACXZLowered (lowerText [0x41]) 0 1 \<and>
   reMatches notACXZLowered (lowerText [0x58]) 0 1"
proof (intro conjI)
  show "lowerRegexpASCII (\<lambda>r. r) notUpper = Some notUpperLowered"
    by code_simp
  show "lowerRegexpASCII (\<lambda>r. r) notACXZ = Some notACXZLowered"
    by code_simp
  show "\<not> reMatches notACXZ [0x41] 0 1"
    by (simp add: notACXZ_def)
  show "\<not> reMatches notACXZ [0x58] 0 1"
    by (simp add: notACXZ_def)
  show "\<not> reMatches notACXZLowered (lowerText [0x41]) 0 1"
    by (simp add: notACXZLowered_def lowerText_def lowerRune_def)
  show "reMatches notACXZLowered (lowerText [0x58]) 0 1"
    by (simp add: notACXZLowered_def lowerText_def lowerRune_def)
qed

section \<open>Properties of the literal pre-filter\<close>

lemma textSlice_append:
  assumes "i \<le> a" "a \<le> j"
  shows "textSlice t i j = textSlice t i a @ textSlice t a j"
proof -
  from assms have "j - i = (a - i) + (j - a)" by simp
  then have "take (j - i) (drop i t) = take ((a - i) + (j - a)) (drop i t)" by simp
  also have "\<dots> = take (a - i) (drop i t) @ take (j - a) (drop (a - i) (drop i t))"
    by (rule take_add)
  also from assms have "drop (a - i) (drop i t) = drop a t" by simp
  finally show ?thesis by (simp add: textSlice_def)
qed

lemma runesToString_append [simp]:
  "runesToString (xs @ ys) = runesToString xs @ runesToString ys"
  by (simp add: runesToString_def)

lemma encoded_slice_mono:
  assumes "i \<le> a" "a \<le> b" "b \<le> j"
  shows "sublist (runesToString (textSlice t a b)) (runesToString (textSlice t i j))"
proof -
  from assms have "textSlice t i j = textSlice t i a @ textSlice t a b @ textSlice t b j"
    using textSlice_append [of i a j t] textSlice_append [of a b j t] by simp
  then show ?thesis by simp
qed

lemma sublist_of_part:
  assumes "sublist lit (runesToString (textSlice t a b))" "i \<le> a" "a \<le> b" "b \<le> j"
  shows "sublist lit (runesToString (textSlice t i j))"
  using assms(1) encoded_slice_mono [OF assms(2-4)] by (rule sublist_order.order_trans)

lemma literal_slice:
  assumes "\<forall>k < length rn. rn ! k = t ! (i + k)" "i + length rn \<le> length t"
  shows "textSlice t i (i + length rn) = rn"
  using assms by (intro nth_equalityI) (simp_all add: textSlice_def)

lemma matchSeq_member:
  "matchSeq f ss i j \<Longrightarrow> s \<in> set ss \<Longrightarrow> \<exists>a b. i \<le> a \<and> a \<le> b \<and> b \<le> j \<and> f s a b"
proof (induction ss arbitrary: i)
  case Nil
  then show ?case by simp
next
  case (Cons x ss)
  from Cons.prems(1) obtain m where m: "i \<le> m" "m \<le> j" "f x i m" "matchSeq f ss m j"
    by auto
  show ?case
  proof (cases "s = x")
    case True
    with m show ?thesis by blast
  next
    case False
    with Cons.prems(2) have "s \<in> set ss" by simp
    from Cons.IH [OF m(4) this] obtain a b where "m \<le> a" "a \<le> b" "b \<le> j" "f s a b"
      by blast
    with m(1) show ?thesis by (intro exI [of _ a] exI [of _ b]) simp
  qed
qed

lemma foldl_keepLonger_None:
  "foldl (\<lambda>longest s. keepLonger longest (f s)) None subs = None"
  by (induction subs) (simp_all add: keepLonger_def)

lemma foldl_keepLonger_defined:
  "foldl (\<lambda>longest s. keepLonger longest (f s)) (Some acc) subs = Some l \<Longrightarrow>
   \<forall>s \<in> set subs. f s \<noteq> None"
proof (induction subs arbitrary: acc)
  case Nil
  then show ?case by simp
next
  case (Cons s subs)
  show ?case
  proof (cases "f s")
    case None
    then have "keepLonger (Some acc) (f s) = None"
      by (simp add: keepLonger_def)
    with Cons.prems show ?thesis
      by (simp add: foldl_keepLonger_None)
  next
    case (Some x)
    then have "keepLonger (Some acc) (f s) = Some (if length x > length acc then x else acc)"
      by (simp add: keepLonger_def)
    with Some Cons.prems Cons.IH [of "if length x > length acc then x else acc"] show ?thesis
      by simp
  qed
qed

lemma longestLiteral_in_match:
  "noFold rx \<Longrightarrow> longestLiteral rx = Some lit \<Longrightarrow> reMatches rx t i j \<Longrightarrow>
   sublist lit (runesToString (textSlice t i j))"
proof (induction rx arbitrary: lit i j)
  case (Regexp op fc sub rn rn0 mn mx)
  from Regexp.prems(3) have ij: "i \<le> j" "j \<le> length t" by simp_all
  have child: "sublist lit (runesToString (textSlice t i j))"
    if "sub = s # ss" "longestLiteral s = Some lit" "reMatches s t a b" "i \<le> a" "a \<le> b" "b \<le> j"
    for s ss a b
  proof -
    from that(1) Regexp.prems(1) have "s \<in> set sub" "noFold s" by simp_all
    from Regexp.IH [OF this that(2,3)] that(4-6) show ?thesis
      by (rule sublist_of_part)
  qed
  have first: "\<exists>m. i \<le> m \<and> m \<le> j \<and> P i m" if "iter P k i j" "1 \<le> k" for P k
    using that by (cases k) auto
  show ?case
  proof (cases op)
    case OpLiteral
    with Regexp.prems have "lit = runesToString rn" "j = i + length rn"
      "\<forall>k < length rn. rn ! k = t ! (i + k)"
      by (simp_all add: runeMatches_def)
    with literal_slice [of rn t i] ij show ?thesis by simp
  next
    case OpCapture
    with Regexp.prems(2,3) obtain s ss where "sub = s # ss" "longestLiteral s = Some lit"
      "reMatches s t i j"
      by (cases sub) simp_all
    from child [OF this] ij show ?thesis by simp
  next
    case OpPlus
    with Regexp.prems(2,3) obtain s ss k where s: "sub = s # ss" "longestLiteral s = Some lit"
      and k: "1 \<le> k" "iter (reMatches s t) k i j"
      by (cases sub) auto
    from first [OF k(2,1)] obtain m where "i \<le> m" "m \<le> j" "reMatches s t i m"
      by blast
    with child [OF s, of i m] show ?thesis by simp
  next
    case OpRepeat
    show ?thesis
    proof (cases "mn \<ge> 1")
      case True
      with OpRepeat Regexp.prems(2,3) obtain s ss k where
        s: "sub = s # ss" "longestLiteral s = Some lit"
        and k: "mn \<le> int k" "iter (reMatches s t) k i j"
        by (cases sub) auto
      from True k(1) have "1 \<le> k" by simp
      from first [OF k(2) this] obtain m where "i \<le> m" "m \<le> j" "reMatches s t i m"
        by blast
      with child [OF s, of i m] show ?thesis by simp
    next
      case False
      with OpRepeat Regexp.prems(2) show ?thesis by simp
    qed
  next
    case OpConcat
    with Regexp.prems(2) have
      fl: "foldl (\<lambda>longest s. keepLonger longest (longestLiteral s)) (Some []) sub = Some lit"
      by simp
    from foldl_keepLonger [OF foldl_keepLonger_defined [OF fl], of "[]"] fl
    have "lit = [] \<or> Some lit \<in> longestLiteral ` set sub" by auto
    then show ?thesis
    proof
      assume "lit = []"
      then show ?thesis by simp
    next
      assume "Some lit \<in> longestLiteral ` set sub"
      then obtain s where s: "s \<in> set sub" "longestLiteral s = Some lit" by auto
      from OpConcat Regexp.prems(3) have "matchSeq (\<lambda>s. reMatches s t) sub i j" by simp
      from matchSeq_member [OF this s(1)] obtain a b where
        ab: "i \<le> a" "a \<le> b" "b \<le> j" "reMatches s t a b"
        by blast
      from s(1) Regexp.prems(1) have "noFold s" by simp
      from Regexp.IH [OF s(1) this s(2) ab(4)] ab(1-3) show ?thesis
        by (rule sublist_of_part)
    qed
  qed (use Regexp.prems(2) in simp_all)
qed

lemma hasPrefix_prefix: "hasPrefix s sep = prefix sep s"
  by (induction s sep rule: hasPrefix.induct) auto

lemma indexFrom_sublist: "0 \<le> i \<Longrightarrow> (indexFrom i s sep \<noteq> -1) = sublist sep s"
proof (induction s arbitrary: i)
  case Nil
  then show ?case by auto
next
  case (Cons x s)
  from Cons.prems have "0 \<le> i + 1" by simp
  from Cons.IH [OF this] Cons.prems show ?case
    by (auto simp: hasPrefix_prefix sublist_Cons_right)
qed

lemma bytes_Contains_sublist: "bytes_Contains b lit = sublist lit b"
  by (simp add: bytes_Contains_def bytes_Index_def indexFrom_sublist)

lemma prefilter_sound:
  assumes "noFold rx" "longestLiteral rx = Some lit" "reMatches rx t i j"
  shows "bytes_Contains (runesToString t) lit"
proof -
  from assms(3) have ij: "i \<le> j" "j \<le> length t"
    by (cases rx, simp)+
  have "textSlice t 0 (length t) = t" by (simp add: textSlice_def)
  with sublist_of_part [OF longestLiteral_in_match [OF assms], of 0 "length t"] ij
  show ?thesis by (simp add: bytes_Contains_sublist)
qed

lemma Find_prefilter:
  assumes "\<not> bytes_Contains (matchBufOf rg zf f) (literalSubstring rg)"
    and "ignoreCase rg \<longrightarrow>
           length (DataFor zf f) \<le> (case transformBuf rg of None \<Rightarrow> MaxLen zf | Some n \<Rightarrow> n)"
  shows "Find_result rg zf f = Some ([], False, None)"
  using assms
  by (auto simp: Find_result_def Find_def Let_def matchBufOf_def split: option.splits)

text \<open>
  C4 at the request for \<open>(?i)foo\<close> matched case-sensitively. The parsed literal is \<open>FOO\<close>
  with the \<open>FoldCase\<close> flag, which matches the text \<open>foo\<close>; the compiled expression has no
  literal prefix, so \<open>compile\<close> stores \<open>longestLiteral\<close>'s answer \<open>FOO\<close> as the literal
  pre-filter. The file \<open>foo\<close> holds a match of the expression but not the literal, and
  \<open>Find\<close> returns no line match for it. (For expressions without a \<open>FoldCase\<close> literal
  the literal is in every match: \<open>prefilter_sound\<close>.)
\<close>

theorem literal_prefilter_misses_case_folded_match:
  "compile foldLibrary foldPattern = Some (Inr foldGrep) \<and>
   longestLiteral foldFOO = Some ''FOO'' \<and>
   reMatches foldFOO [0x66, 0x6F, 0x6F, 0x0A] 0 3 \<and>
   runesToString [0x66, 0x6F, 0x6F, 0x0A] = Data file_foo \<and>
   FindAllIndex (caseFoldRegexp ''foo'') (Data file_foo) 1000 = [(0, 3)] \<and>
   \<not> bytes_Contains (Data file_foo) (literalSubstring foldGrep) \<and>
   Find_result foldGrep (archiveOf [file_foo]) file_foo = Some ([], False, None)"
proof (intro conjI)
  have "longestLiteral foldFOO = Some ''FOO''"
    by code_simp
  then show "compile foldLibrary foldPattern = Some (Inr foldGrep)"
    by (simp add: compile_def compilePattern_def buildExpr_def foldLibrary_def foldPattern_def
        foldGrep_def caseFoldRegexp_def)
  show "longestLiteral foldFOO = Some ''FOO''"
    by code_simp
  show "reMatches foldFOO [0x66, 0x6F, 0x6F, 0x0A] 0 3"
    by (simp add: foldFOO_def runeMatches_def foldKey_def lowerRune_def
        numeral_3_eq_3 less_Suc_eq)
  show "runesToString [0x66, 0x6F, 0x6F, 0x0A] = Data file_foo"
    by code_simp
  show "FindAllIndex (caseFoldRegexp ''foo'') (Data file_foo) 1000 = [(0, 3)]"
    by code_simp
  show "\<not> bytes_Contains (Data file_foo) (literalSubstring foldGrep)"
    by code_simp
  show "Find_result foldGrep (archiveOf [file_foo]) file_foo = Some ([], False, None)"
    by code_simp
qed

end
